theory Spec2Isabelle
  imports Main
begin

section \<open>JavaScript strings\<close>

text \<open>
  A JavaScript string is a sequence of UTF-16 code units; \<open>length\<close> counts code units,
  as \<^verbatim>\<open>text.length\<close> does. ASCII literals of the source are written \<open>js ''...''\<close>;
  the Japanese literals are given by their code units.
\<close>

type_synonym jstring = "nat list"

definition js :: "string \<Rightarrow> jstring" where
  "js s = map of_char s"

text \<open>\<^verbatim>\<open>if (s)\<close> on a value of type \<^verbatim>\<open>string | null\<close>: null and the empty string are falsy.\<close>

fun truthy :: "jstring option \<Rightarrow> bool" where
  "truthy None = False"
| "truthy (Some s) = (s \<noteq> [])"

text \<open>\<^verbatim>\<open>a || b\<close> on such values.\<close>

definition js_or :: "jstring option \<Rightarrow> jstring option \<Rightarrow> jstring option" where
  "js_or a b = (if truthy a then a else b)"

text \<open>The code units \<^verbatim>\<open>String.prototype.trim\<close> removes (WhiteSpace and LineTerminator).\<close>

definition is_js_space :: "nat \<Rightarrow> bool" where
  "is_js_space c \<longleftrightarrow>
     c = 9 \<or> c = 10 \<or> c = 11 \<or> c = 12 \<or> c = 13 \<or> c = 32 \<or> c = 160 \<or> c = 5760
     \<or> (8192 \<le> c \<and> c \<le> 8202) \<or> c = 8232 \<or> c = 8233 \<or> c = 8239 \<or> c = 8287
     \<or> c = 12288 \<or> c = 65279"

definition js_trim :: "jstring \<Rightarrow> jstring" where
  "js_trim s = rev (dropWhile is_js_space (rev (dropWhile is_js_space s)))"

fun starts_with :: "jstring \<Rightarrow> jstring \<Rightarrow> bool" where
  "starts_with s [] = True"
| "starts_with [] (p # ps) = False"
| "starts_with (c # cs) (p # ps) = (c = p \<and> starts_with cs ps)"

text \<open>\<^verbatim>\<open>s.includes(pat)\<close>.\<close>

fun js_includes :: "jstring \<Rightarrow> jstring \<Rightarrow> bool" where
  "js_includes [] pat = (pat = [])"
| "js_includes (c # cs) pat = (starts_with (c # cs) pat \<or> js_includes cs pat)"

text \<open>
  Case folding of the \<^verbatim>\<open>i\<close> flag of a regular expression without the \<^verbatim>\<open>u\<close> flag: a code
  unit is canonicalised by upper-casing, and a code unit from 128 on never canonicalises
  to an ASCII one, so against an ASCII pattern only the ASCII letters fold.
\<close>

definition canonicalize :: "nat \<Rightarrow> nat" where
  "canonicalize c = (if 97 \<le> c \<and> c \<le> 122 then c - 32 else c)"

fun starts_with_ci :: "jstring \<Rightarrow> jstring \<Rightarrow> bool" where
  "starts_with_ci s [] = True"
| "starts_with_ci [] (p # ps) = False"
| "starts_with_ci (c # cs) (p # ps) = (canonicalize c = canonicalize p \<and> starts_with_ci cs ps)"

text \<open>\<^verbatim>\<open>text.replace(/checkbox/gi, "")\<close>: every match, scanning from the left, is removed.\<close>

fun replace_checkbox_gi :: "jstring \<Rightarrow> jstring" where
  "replace_checkbox_gi [] = []"
| "replace_checkbox_gi (c # cs) =
     (if starts_with_ci (c # cs) (js ''checkbox'') then replace_checkbox_gi (drop 7 cs)
      else c # replace_checkbox_gi cs)"

text \<open>ASCII lower-casing, for the attribute values that selectors compare without case.\<close>

definition ascii_lower :: "nat \<Rightarrow> nat" where
  "ascii_lower c = (if 65 \<le> c \<and> c \<le> 90 then c + 32 else c)"

section \<open>The document tree\<close>

text \<open>
  A node is a text node or an element with its lower-case tag name, its attributes (name
  and value, the first entry of a name counts) and its children. An element is referred
  to by its path from the root element (the child indices); the root is \<open>[]\<close>.
\<close>

datatype node = Text jstring | Elem jstring "(jstring \<times> jstring) list" "node list"

type_synonym path = "nat list"

fun node_at :: "node \<Rightarrow> path \<Rightarrow> node option" where
  "node_at n [] = Some n"
| "node_at (Text s) (i # p) = None"
| "node_at (Elem t a ks) (i # p) = (if i < length ks then node_at (ks ! i) p else None)"

fun attr_of :: "node \<Rightarrow> jstring \<Rightarrow> jstring option" where
  "attr_of (Text s) name = None"
| "attr_of (Elem t a ks) name = map_of a name"

text \<open>\<^verbatim>\<open>el.getAttribute(name)\<close>.\<close>

definition getAttribute :: "node \<Rightarrow> path \<Rightarrow> jstring \<Rightarrow> jstring option" where
  "getAttribute doc p name = (case node_at doc p of None \<Rightarrow> None | Some n \<Rightarrow> attr_of n name)"

text \<open>\<^verbatim>\<open>node.textContent\<close>: the text of all text descendants, in document order.\<close>

fun text_of :: "node \<Rightarrow> jstring" where
  "text_of (Text s) = s"
| "text_of (Elem t a ks) = concat (map text_of ks)"

definition textContent :: "node \<Rightarrow> path \<Rightarrow> jstring" where
  "textContent doc p = (case node_at doc p of None \<Rightarrow> [] | Some n \<Rightarrow> text_of n)"

text \<open>The elements of a subtree in document order (preorder), the subtree's root first.\<close>

fun elems :: "node \<Rightarrow> path list" and elems_list :: "nat \<Rightarrow> node list \<Rightarrow> path list" where
  "elems (Text s) = []"
| "elems (Elem t a ks) = [] # elems_list 0 ks"
| "elems_list i [] = []"
| "elems_list i (k # ks) = map ((#) i) (elems k) @ elems_list (Suc i) ks"

text \<open>The descendant elements of the element at \<open>p\<close>, in document order.\<close>

definition descendants :: "node \<Rightarrow> path \<Rightarrow> path list" where
  "descendants doc p =
     (case node_at doc p of None \<Rightarrow> [] | Some n \<Rightarrow> map ((@) p) (tl (elems n)))"

text \<open>\<^verbatim>\<open>el.parentElement\<close>; the root element has none.\<close>

definition parentElement :: "path \<Rightarrow> path option" where
  "parentElement p = (if p = [] then None else Some (butlast p))"

text \<open>The proper ancestors of an element, the nearest first.\<close>

primrec ancestors_rev :: "path \<Rightarrow> path list" where
  "ancestors_rev [] = []"
| "ancestors_rev (i # r) = rev r # ancestors_rev r"

definition ancestors :: "path \<Rightarrow> path list" where
  "ancestors p = ancestors_rev (rev p)"

text \<open>\<^verbatim>\<open>document.body\<close>: the first body or frameset child of the html root.\<close>

fun is_body :: "node \<Rightarrow> bool" where
  "is_body (Text s) = False"
| "is_body (Elem t a ks) = (t = js ''body'' \<or> t = js ''frameset'')"

definition document_body :: "node \<Rightarrow> path option" where
  "document_body doc =
     (case doc of
        Text s \<Rightarrow> None
      | Elem t a ks \<Rightarrow>
          if t = js ''html''
          then (case filter (\<lambda>i. is_body (ks ! i)) [0..<length ks] of [] \<Rightarrow> None | i # r \<Rightarrow> Some [i])
          else None)"

section \<open>Selectors\<close>

text \<open>
  The simple selectors the source uses: \<^verbatim>\<open>[a="v"]\<close>, \<^verbatim>\<open>[a*="v"]\<close>, a tag name, and
  \<^verbatim>\<open>input[type="checkbox"]\<close>, where HTML compares the value of \<^verbatim>\<open>type\<close> without ASCII case.
  A selector list (\<^verbatim>\<open>"a, b"\<close>) is a list of them.
\<close>

datatype selector =
    AttrEquals jstring jstring
  | AttrContains jstring jstring
  | TagIs jstring
  | TagAttrNoCase jstring jstring jstring

fun matches :: "selector \<Rightarrow> node \<Rightarrow> bool" where
  "matches sel (Text s) = False"
| "matches (AttrEquals name v) (Elem t a ks) = (map_of a name = Some v)"
| "matches (AttrContains name v) (Elem t a ks) =
     (case map_of a name of None \<Rightarrow> False | Some x \<Rightarrow> v \<noteq> [] \<and> js_includes x v)"
| "matches (TagIs tg) (Elem t a ks) = (t = tg)"
| "matches (TagAttrNoCase tg name v) (Elem t a ks) =
     (t = tg \<and> (case map_of a name of None \<Rightarrow> False | Some x \<Rightarrow> map ascii_lower x = v))"

definition matches_at :: "node \<Rightarrow> selector list \<Rightarrow> path \<Rightarrow> bool" where
  "matches_at doc sels p =
     (case node_at doc p of None \<Rightarrow> False | Some n \<Rightarrow> list_ex (\<lambda>s. matches s n) sels)"

text \<open>\<^verbatim>\<open>document.querySelectorAll\<close>, \<^verbatim>\<open>document.querySelector\<close>.\<close>

definition doc_querySelectorAll :: "node \<Rightarrow> selector list \<Rightarrow> path list" where
  "doc_querySelectorAll doc sels = filter (matches_at doc sels) (elems doc)"

definition doc_querySelector :: "node \<Rightarrow> selector list \<Rightarrow> path option" where
  "doc_querySelector doc sels = find (matches_at doc sels) (elems doc)"

text \<open>\<^verbatim>\<open>el.querySelectorAll\<close>, \<^verbatim>\<open>el.querySelector\<close>: among the descendants of \<open>el\<close>.\<close>

definition querySelectorAll :: "node \<Rightarrow> path \<Rightarrow> selector list \<Rightarrow> path list" where
  "querySelectorAll doc p sels = filter (matches_at doc sels) (descendants doc p)"

definition querySelector :: "node \<Rightarrow> path \<Rightarrow> selector list \<Rightarrow> path option" where
  "querySelector doc p sels = find (matches_at doc sels) (descendants doc p)"

text \<open>\<^verbatim>\<open>el.closest(sels)\<close>: the element itself or its nearest ancestor that matches.\<close>

definition closest :: "node \<Rightarrow> path \<Rightarrow> selector list \<Rightarrow> path option" where
  "closest doc p sels = find (matches_at doc sels) (p # ancestors p)"

text \<open>\<^verbatim>\<open>document.getElementById(id)\<close>: the first element, in document order, with that id.\<close>

definition getElementById :: "node \<Rightarrow> jstring \<Rightarrow> path option" where
  "getElementById doc ident =
     (if ident = [] then None else find (matches_at doc [AttrEquals (js ''id'') ident]) (elems doc))"

section \<open>Constants of the content script\<close>

definition other_calendars_ja :: jstring where
  "other_calendars_ja = [20182, 12398, 12459, 12524, 12531, 12480, 12540]"

definition calendar_ja :: jstring where
  "calendar_ja = [12459, 12524, 12531, 12480, 12540]"

definition drawer_ja :: jstring where
  "drawer_ja = [12489, 12525, 12527, 12540]"

definition CT_CALENDAR_SELECTORS :: "selector list" where
  "CT_CALENDAR_SELECTORS =
     [AttrEquals (js ''aria-label'') other_calendars_ja,
      AttrEquals (js ''aria-label'') (js ''Other calendars''),
      AttrContains (js ''aria-label'') calendar_ja,
      AttrContains (js ''aria-label'') (js ''calendar''),
      AttrContains (js ''data-testid'') (js ''calendar''),
      AttrEquals (js ''role'') (js ''tree''),
      AttrEquals (js ''role'') (js ''group'')]"

definition CT_CHECKBOX_SELECTOR :: "selector list" where
  "CT_CHECKBOX_SELECTOR = [TagAttrNoCase (js ''input'') (js ''type'') (js ''checkbox'')]"

section \<open>LabelResolver: ctGetCalendarLabel\<close>

text \<open>Strategy 1: \<^verbatim>\<open>aria-labelledby\<close>, the trimmed text of the element it names.\<close>

definition label_by_reference :: "node \<Rightarrow> path \<Rightarrow> jstring option" where
  "label_by_reference doc checkbox =
     (case getAttribute doc checkbox (js ''aria-labelledby'') of
        None \<Rightarrow> None
      | Some labelledBy \<Rightarrow>
          if labelledBy \<noteq> []
          then (case getElementById doc labelledBy of
                  None \<Rightarrow> None
                | Some labelElement \<Rightarrow>
                    (let text = js_trim (textContent doc labelElement) in
                     if text \<noteq> [] then Some text else None))
          else None)"

text \<open>Strategy 2: the checkbox's own \<^verbatim>\<open>aria-label\<close>.\<close>

definition label_by_aria_label :: "node \<Rightarrow> path \<Rightarrow> jstring option" where
  "label_by_aria_label doc checkbox =
     (let ariaLabel = getAttribute doc checkbox (js ''aria-label'') in
      if truthy ariaLabel then ariaLabel else None)"

text \<open>
  Strategy 3: the first \<^verbatim>\<open>label, span, div\<close> descendant of the closest \<^verbatim>\<open>div, li, span\<close>:
  its \<^verbatim>\<open>aria-label\<close>, else its trimmed text unless that includes \<^verbatim>\<open>"checkbox"\<close>.
\<close>

definition label_by_container :: "node \<Rightarrow> path \<Rightarrow> jstring option" where
  "label_by_container doc checkbox =
     (case closest doc checkbox [TagIs (js ''div''), TagIs (js ''li''), TagIs (js ''span'')] of
        None \<Rightarrow> None
      | Some container \<Rightarrow>
          (case querySelector doc container
                  [TagIs (js ''label''), TagIs (js ''span''), TagIs (js ''div'')] of
             None \<Rightarrow> None
           | Some label \<Rightarrow>
               (let labelAriaLabel = getAttribute doc label (js ''aria-label'') in
                if truthy labelAriaLabel then labelAriaLabel
                else (let text = js_trim (textContent doc label) in
                      if text \<noteq> [] \<and> length text > 0 \<and> \<not> js_includes text (js ''checkbox'')
                      then Some text else None))))"

text \<open>
  Strategy 4: up to three parents; the trimmed text of the parent, if it is shorter than
  100 code units, with every \<^verbatim>\<open>checkbox\<close> (any case) removed and trimmed again.
\<close>

fun label_by_parents :: "node \<Rightarrow> path list \<Rightarrow> jstring option" where
  "label_by_parents doc [] = None"
| "label_by_parents doc (parent # up) =
     (let text = js_trim (textContent doc parent) in
      if text \<noteq> [] \<and> length text > 0 \<and> length text < 100
         \<and> length (js_trim (replace_checkbox_gi text)) > 0
      then Some (js_trim (replace_checkbox_gi text))
      else label_by_parents doc up)"

text \<open>Strategy 5: the data attributes.\<close>

definition label_by_data :: "node \<Rightarrow> path \<Rightarrow> jstring option" where
  "label_by_data doc checkbox =
     (let dataName =
            js_or (getAttribute doc checkbox (js ''data-name''))
              (js_or (getAttribute doc checkbox (js ''data-calendar-name''))
                 (getAttribute doc checkbox (js ''data-label'')))
      in if truthy dataName then dataName else None)"

definition ctGetCalendarLabel :: "node \<Rightarrow> path \<Rightarrow> jstring option" where
  "ctGetCalendarLabel doc checkbox =
     (case label_by_reference doc checkbox of
        Some text \<Rightarrow> Some text
      | None \<Rightarrow>
     (case label_by_aria_label doc checkbox of
        Some ariaLabel \<Rightarrow> Some ariaLabel
      | None \<Rightarrow>
     (case label_by_container doc checkbox of
        Some text \<Rightarrow> Some text
      | None \<Rightarrow>
     (case label_by_parents doc (take 3 (ancestors checkbox)) of
        Some withoutCheckbox \<Rightarrow> Some withoutCheckbox
      | None \<Rightarrow> label_by_data doc checkbox))))"

section \<open>The page, time and effects\<close>

text \<open>
  The page is the document tree and the properties of its elements that scripts read and
  write, stored under the element's path: the checkedness of an input, and the scroll
  geometry. The discovery functions read the tree only.
\<close>

record page =
  tree :: node
  checkedness :: "path \<Rightarrow> bool"
  scrollTop :: "path \<Rightarrow> int"
  scrollHeight :: "path \<Rightarrow> int"
  clientHeight :: "path \<Rightarrow> int"

text \<open>What the script does to its environment, in order.\<close>

datatype effect = Click path bool | Scroll path int | Sleep int

text \<open>
  The world of a run: the page, the clock \<^verbatim>\<open>Date.now()\<close> in milliseconds, and the
  effects so far. The host page is a function: while the script sleeps until time \<open>t\<close>,
  the host turns the page \<open>p\<close> into \<open>host t p\<close> (a re-render, a virtualised list that
  follows the scroll offset, or nothing). The clock advances only while the script sleeps,
  and by the time asked for. A reference that the script holds across a sleep is the path:
  afterwards it reads what the page stores under that path.
\<close>

record world =
  pg :: page
  now :: int
  trace :: "effect list"

type_synonym host = "int \<Rightarrow> page \<Rightarrow> page"

text \<open>\<^verbatim>\<open>await ctSleep(ms)\<close>: the timer fires after \<open>ms\<close>; the host has run meanwhile.\<close>

definition ctSleep :: "host \<Rightarrow> int \<Rightarrow> world \<Rightarrow> world" where
  "ctSleep host ms w =
     w\<lparr>pg := host (now w + ms) (pg w), now := now w + ms, trace := trace w @ [Sleep ms]\<rparr>"

text \<open>
  A form control is disabled when it carries the \<^verbatim>\<open>disabled\<close> attribute, or when it lies in
  a \<^verbatim>\<open>fieldset\<close> that carries it, outside the first \<^verbatim>\<open>legend\<close> child of that fieldset.
\<close>

fun is_legend :: "node \<Rightarrow> bool" where
  "is_legend (Text s) = False"
| "is_legend (Elem t a ks) = (t = js ''legend'')"

definition first_legend :: "node \<Rightarrow> path \<Rightarrow> path option" where
  "first_legend doc fieldset =
     (case node_at doc fieldset of
        None \<Rightarrow> None
      | Some (Text s) \<Rightarrow> None
      | Some (Elem t a ks) \<Rightarrow>
          (case filter (\<lambda>i. is_legend (ks ! i)) [0..<length ks] of
             [] \<Rightarrow> None
           | i # r \<Rightarrow> Some (fieldset @ [i])))"

definition disabled_by :: "node \<Rightarrow> path \<Rightarrow> path \<Rightarrow> bool" where
  "disabled_by doc p fieldset \<longleftrightarrow>
     matches_at doc [TagIs (js ''fieldset'')] fieldset
     \<and> getAttribute doc fieldset (js ''disabled'') \<noteq> None
     \<and> (case first_legend doc fieldset of
          None \<Rightarrow> True
        | Some legend \<Rightarrow> take (length legend) p \<noteq> legend)"

definition is_disabled :: "node \<Rightarrow> path \<Rightarrow> bool" where
  "is_disabled doc p \<longleftrightarrow>
     getAttribute doc p (js ''disabled'') \<noteq> None \<or> list_ex (disabled_by doc p) (ancestors p)"

text \<open>
  \<^verbatim>\<open>checkbox.click()\<close>: on a disabled form control the method returns at once; otherwise
  the activation behaviour of a checkbox flips its checkedness (no listener of the page is
  taken to cancel the event; the tests of the repository mock the method so). The effect
  records the call and the state it asks for, the opposite of the state at the call: an
  enabled checkbox is in that state afterwards.
\<close>

definition click :: "path \<Rightarrow> world \<Rightarrow> world" where
  "click p w =
     (if is_disabled (tree (pg w)) p
      then w\<lparr>trace := trace w @ [Click p (\<not> checkedness (pg w) p)]\<rparr>
      else w\<lparr>pg := (pg w)\<lparr>checkedness := (checkedness (pg w))(p := \<not> checkedness (pg w) p)\<rparr>,
             trace := trace w @ [Click p (\<not> checkedness (pg w) p)]\<rparr>)"

text \<open>\<^verbatim>\<open>el.scrollTop = v\<close>: the offset is clamped to the scrollable range.\<close>

definition set_scrollTop :: "path \<Rightarrow> int \<Rightarrow> world \<Rightarrow> world" where
  "set_scrollTop p v w =
     w\<lparr>pg := (pg w)\<lparr>scrollTop := (scrollTop (pg w))
               (p := max 0 (min v (scrollHeight (pg w) p - clientHeight (pg w) p)))\<rparr>,
       trace := trace w @ [Scroll p v]\<rparr>"

text \<open>A thrown exception is a value: a \<^verbatim>\<open>TypeError\<close> (a property of \<^verbatim>\<open>undefined\<close>, or a
  call of what is not a function), or the \<^verbatim>\<open>Error\<close> of the load timeout, whose message carries
  the checkbox count.\<close>

datatype error = TypeError | Timeout nat

section \<open>SectionLocator: ctFindCalendarSection\<close>

text \<open>The loop over \<^verbatim>\<open>CT_CALENDAR_SELECTORS\<close>.\<close>

fun try_selectors :: "node \<Rightarrow> selector list \<Rightarrow> path option" where
  "try_selectors doc [] = None"
| "try_selectors doc (selector # rest) =
     (case doc_querySelector doc [selector] of
        None \<Rightarrow> try_selectors doc rest
      | Some section \<Rightarrow>
          if length (querySelectorAll doc section CT_CHECKBOX_SELECTOR) > 0 then Some section
          else try_selectors doc rest)"

text \<open>The fallback loop over all checkboxes of the document.\<close>

fun try_closest :: "node \<Rightarrow> path list \<Rightarrow> path option" where
  "try_closest doc [] = None"
| "try_closest doc (checkbox # rest) =
     (case closest doc checkbox
             [AttrEquals (js ''role'') (js ''tree''), AttrEquals (js ''role'') (js ''group''),
              AttrContains (js ''aria-label'') (js ''calendar''),
              AttrContains (js ''aria-label'') calendar_ja] of
        None \<Rightarrow> try_closest doc rest
      | Some container \<Rightarrow> Some container)"

text \<open>
  The last resort, \<^verbatim>\<open>while (parent && parent !== document.body)\<close>: the lowest ancestor
  of the first checkbox, below the body, that holds at least half of all checkboxes.
\<close>

fun common_parent :: "node \<Rightarrow> nat \<Rightarrow> path list \<Rightarrow> path option" where
  "common_parent doc n [] = None"
| "common_parent doc n (parent # up) =
     (if Some parent = document_body doc then None
      else if 2 * length (querySelectorAll doc parent CT_CHECKBOX_SELECTOR) \<ge> n then Some parent
      else common_parent doc n up)"

text \<open>One round of the retry loop, up to the sleep.\<close>

definition find_section_round :: "node \<Rightarrow> error + path option" where
  "find_section_round doc =
     (case try_selectors doc CT_CALENDAR_SELECTORS of
        Some section \<Rightarrow> Inr (Some section)
      | None \<Rightarrow>
          (let allCheckboxes = doc_querySelectorAll doc CT_CHECKBOX_SELECTOR in
           if length allCheckboxes > 0
           then (case try_closest doc allCheckboxes of
                   Some container \<Rightarrow> Inr (Some container)
                 | None \<Rightarrow>
                     (case allCheckboxes of
                        [] \<Rightarrow> Inl TypeError
                      | firstCheckbox # others \<Rightarrow>
                          Inr (common_parent doc (length allCheckboxes) (ancestors firstCheckbox))))
           else Inr None))"

fun find_section_rounds :: "host \<Rightarrow> nat \<Rightarrow> world \<Rightarrow> (error + path option) \<times> world" where
  "find_section_rounds host 0 w = (Inr None, w)"
| "find_section_rounds host (Suc n) w =
     (case find_section_round (tree (pg w)) of
        Inl e \<Rightarrow> (Inl e, w)
      | Inr (Some section) \<Rightarrow> (Inr (Some section), w)
      | Inr None \<Rightarrow> find_section_rounds host n (ctSleep host 500 w))"

definition ctFindCalendarSection :: "host \<Rightarrow> world \<Rightarrow> (error + path option) \<times> world" where
  "ctFindCalendarSection host w = find_section_rounds host 10 w"

section \<open>CheckboxCollector: ctGetCalendarCheckboxes\<close>

record CalendarCheckbox =
  element :: path
  label :: jstring
  checked :: bool

text \<open>The loop that pushes a handle for every checkbox with a truthy label.\<close>

fun collect_checkboxes :: "page \<Rightarrow> path list \<Rightarrow> CalendarCheckbox list \<Rightarrow> CalendarCheckbox list" where
  "collect_checkboxes p [] calendarCheckboxes = calendarCheckboxes"
| "collect_checkboxes p (checkbox # rest) calendarCheckboxes =
     (case ctGetCalendarLabel (tree p) checkbox of
        None \<Rightarrow> collect_checkboxes p rest calendarCheckboxes
      | Some l \<Rightarrow>
          if l \<noteq> []
          then collect_checkboxes p rest
                 (calendarCheckboxes @
                    [\<lparr>element = checkbox, label = l, checked = checkedness p checkbox\<rparr>])
          else collect_checkboxes p rest calendarCheckboxes)"

definition ctGetCalendarCheckboxes ::
  "host \<Rightarrow> world \<Rightarrow> (error + CalendarCheckbox list) \<times> world" where
  "ctGetCalendarCheckboxes host w =
     (case ctFindCalendarSection host w of
        (Inl e, w1) \<Rightarrow> (Inl e, w1)
      | (Inr None, w1) \<Rightarrow> (Inr [], w1)
      | (Inr (Some section), w1) \<Rightarrow>
          (Inr (collect_checkboxes (pg w1)
                  (querySelectorAll (tree (pg w1)) section CT_CHECKBOX_SELECTOR) []), w1))"

text \<open>\<^verbatim>\<open>ctToggleCheckbox\<close>: click only when the state differs from the wanted one.\<close>

definition ctToggleCheckbox :: "path \<Rightarrow> bool \<Rightarrow> world \<Rightarrow> world" where
  "ctToggleCheckbox checkbox wanted w =
     (if checkedness (pg w) checkbox \<noteq> wanted then click checkbox w else w)"

section \<open>ScrollSearcher: ctFindAndScrollToCheckbox\<close>

definition ctFindDrawerScrollContainer :: "node \<Rightarrow> error + path option" where
  "ctFindDrawerScrollContainer doc =
     (let drawerHeaders =
            filter (\<lambda>h1. js_includes (textContent doc h1) drawer_ja
                        \<or> js_includes (textContent doc h1) (js ''Drawer''))
              (doc_querySelectorAll doc [TagIs (js ''h1'')])
      in if length drawerHeaders > 0
         then (case drawerHeaders of
                 [] \<Rightarrow> Inl TypeError
               | drawerHeader # others \<Rightarrow>
                   (case parentElement drawerHeader of
                      None \<Rightarrow> Inr None
                    | Some scrollContainer \<Rightarrow>
                        if matches_at doc [TagIs (js ''div'')] scrollContainer
                        then Inr (Some scrollContainer) else Inr None))
         else Inr None)"

fun find_by_label :: "node \<Rightarrow> jstring \<Rightarrow> path list \<Rightarrow> path option" where
  "find_by_label doc normalizedTargetLabel [] = None"
| "find_by_label doc normalizedTargetLabel (checkbox # rest) =
     (case ctGetCalendarLabel doc checkbox of
        None \<Rightarrow> find_by_label doc normalizedTargetLabel rest
      | Some checkboxLabel \<Rightarrow>
          if checkboxLabel \<noteq> [] \<and> js_trim checkboxLabel = normalizedTargetLabel
          then Some checkbox
          else find_by_label doc normalizedTargetLabel rest)"

definition ctFindCheckboxByLabel :: "node \<Rightarrow> jstring \<Rightarrow> path option" where
  "ctFindCheckboxByLabel doc l =
     find_by_label doc (js_trim l) (doc_querySelectorAll doc CT_CHECKBOX_SELECTOR)"

text \<open>The downward sweep: \<open>n\<close> attempts left, \<open>currentScrollTop\<close> the script's own offset.\<close>

fun scroll_down :: "host \<Rightarrow> jstring \<Rightarrow> path \<Rightarrow> nat \<Rightarrow> int \<Rightarrow> world \<Rightarrow> path option \<times> world" where
  "scroll_down host l drawerContainer 0 currentScrollTop w = (None, w)"
| "scroll_down host l drawerContainer (Suc n) currentScrollTop w =
     (let w1 = ctSleep host 300 (set_scrollTop drawerContainer (currentScrollTop + 200) w) in
      case ctFindCheckboxByLabel (tree (pg w1)) l of
        Some checkbox \<Rightarrow> (Some checkbox, w1)
      | None \<Rightarrow>
          if scrollTop (pg w1) drawerContainer
               \<ge> scrollHeight (pg w1) drawerContainer - clientHeight (pg w1) drawerContainer
          then (None, w1)
          else scroll_down host l drawerContainer n (currentScrollTop + 200) w1)"

text \<open>The upward sweep.\<close>

fun scroll_up :: "host \<Rightarrow> jstring \<Rightarrow> path \<Rightarrow> nat \<Rightarrow> int \<Rightarrow> world \<Rightarrow> path option \<times> world" where
  "scroll_up host l drawerContainer 0 currentScrollTop w = (None, w)"
| "scroll_up host l drawerContainer (Suc n) currentScrollTop w =
     (let w1 = ctSleep host 300
                 (set_scrollTop drawerContainer (max 0 (currentScrollTop - 200)) w) in
      case ctFindCheckboxByLabel (tree (pg w1)) l of
        Some checkbox \<Rightarrow> (Some checkbox, w1)
      | None \<Rightarrow>
          if max 0 (currentScrollTop - 200) \<le> 0 then (None, w1)
          else scroll_up host l drawerContainer n (max 0 (currentScrollTop - 200)) w1)"

definition ctFindAndScrollToCheckbox ::
  "host \<Rightarrow> jstring \<Rightarrow> world \<Rightarrow> (error + path option) \<times> world" where
  "ctFindAndScrollToCheckbox host l w =
     (case ctFindCheckboxByLabel (tree (pg w)) l of
        Some checkbox \<Rightarrow> (Inr (Some checkbox), w)
      | None \<Rightarrow>
          (case ctFindDrawerScrollContainer (tree (pg w)) of
             Inl e \<Rightarrow> (Inl e, w)
           | Inr None \<Rightarrow> (Inr None, w)
           | Inr (Some drawerContainer) \<Rightarrow>
               (case scroll_down host l drawerContainer 10 (scrollTop (pg w) drawerContainer) w of
                  (Some checkbox, w1) \<Rightarrow> (Inr (Some checkbox), w1)
                | (None, w1) \<Rightarrow>
                    (case scroll_up host l drawerContainer 10
                            (scrollTop (pg w1) drawerContainer) w1 of
                       (found, w2) \<Rightarrow> (Inr found, w2)))))"

text \<open>
  The type annotations of the source are erased when the script runs, and the labels of a
  group come from the stored settings, which an imported file fills with any JSON value
  (the import checks that \<^verbatim>\<open>calendars\<close> is an array, not what it holds). Numbers are
  kept as integers: only the kind of the value matters here.
\<close>

datatype jsvalue =
    JString jstring
  | JNumber int
  | JBoolean bool
  | JNull
  | JArray "jsvalue list"
  | JObject "(jstring \<times> jsvalue) list"


section \<open>LoadGate: ctWaitForCalendarLoad\<close>

text \<open>
  The loop \<^verbatim>\<open>while (Date.now() - startTime < maxWait)\<close>, with \<^verbatim>\<open>maxWait = 30000\<close> and
  \<^verbatim>\<open>checkInterval = 1000\<close>. The timeout is thrown with the number of checkboxes in the
  document at that moment.
\<close>

function wait_loop :: "host \<Rightarrow> int \<Rightarrow> world \<Rightarrow> (error + unit) \<times> world" where
  "wait_loop host startTime w =
     (if now w - startTime < 30000
      then (case ctFindCalendarSection host w of
              (Inl e, w1) \<Rightarrow> (Inl e, w1)
            | (Inr None, w1) \<Rightarrow> wait_loop host startTime (ctSleep host 1000 w1)
            | (Inr (Some section), w1) \<Rightarrow>
                (case ctGetCalendarCheckboxes host w1 of
                   (Inl e, w2) \<Rightarrow> (Inl e, w2)
                 | (Inr checkboxes, w2) \<Rightarrow>
                     if length checkboxes > 0 then (Inr (), w2)
                     else wait_loop host startTime (ctSleep host 1000 w2)))
      else (Inl (Timeout (length (doc_querySelectorAll (tree (pg w)) CT_CHECKBOX_SELECTOR))), w))"
  by pat_completeness auto
termination
proof (relation "measure (\<lambda>(host, startTime, w). nat (startTime + 30000 - now w))", goal_cases)
  have rounds: "now w \<le> now (snd (find_section_rounds host n w))" for host n w
  proof (induction n arbitrary: w)
    case 0
    then show ?case by simp
  next
    case (Suc n)
    have "now w \<le> now (ctSleep host 500 w)" by (simp add: ctSleep_def)
    also have "\<dots> \<le> now (snd (find_section_rounds host n (ctSleep host 500 w)))" by (rule Suc.IH)
    finally show ?case by (simp split: sum.splits option.splits)
  qed
  have located: "now w \<le> now w1" if "(r, w1) = ctFindCalendarSection host w" for r w1 host w
    using rounds [of w host 10] that
    by (cases "ctFindCalendarSection host w") (simp add: ctFindCalendarSection_def)
  have collected: "now w \<le> now w1" if "(r, w1) = ctGetCalendarCheckboxes host w" for r w1 host w
    using rounds [of w host 10] that
    by (auto simp: ctGetCalendarCheckboxes_def ctFindCalendarSection_def
             split: prod.splits sum.splits option.splits)
  {
    case 1
    then show ?case by simp
  next
    case 2
    then show ?case
      by (auto dest!: located simp: ctSleep_def)
  next
    case 3
    then show ?case
      by (auto dest!: located collected simp: ctSleep_def)
  }
qed

declare wait_loop.simps [simp del]

definition ctWaitForCalendarLoad :: "host \<Rightarrow> world \<Rightarrow> (error + unit) \<times> world" where
  "ctWaitForCalendarLoad host w = wait_loop host (now w) w"

section \<open>GroupReconciler: ctApplyCalendarGroup\<close>

record CalendarGroup =
  ident :: jstring
  name :: jstring
  calendars :: "jstring list"
  createdAt :: int
  updatedAt :: int

text \<open>
  The pass over the snapshot. The conditions read the snapshot's \<^verbatim>\<open>checked\<close>;
  \<^verbatim>\<open>ctToggleCheckbox\<close> reads the live element. Every label seen is added to the processed
  set.
\<close>

fun apply_initial ::
  "jstring list \<Rightarrow> bool \<Rightarrow> CalendarCheckbox list \<Rightarrow> jstring set \<Rightarrow> world \<Rightarrow> jstring set \<times> world" where
  "apply_initial cals disableOthers [] processedCalendars w = (processedCalendars, w)"
| "apply_initial cals disableOthers (checkbox # rest) processedCalendars w =
     (let shouldBeChecked = (label checkbox \<in> set cals);
          w1 = (if shouldBeChecked \<and> \<not> checked checkbox
                then ctToggleCheckbox (element checkbox) True w
                else if \<not> shouldBeChecked \<and> checked checkbox \<and> disableOthers
                then ctToggleCheckbox (element checkbox) False w
                else w)
      in apply_initial cals disableOthers rest (insert (label checkbox) processedCalendars) w1)"

text \<open>
  The pass over the group's labels that the snapshot did not show. An exception of the
  search is caught and the loop goes on.
\<close>

fun apply_unprocessed ::
  "host \<Rightarrow> jstring list \<Rightarrow> jstring set \<Rightarrow> world \<Rightarrow> jstring set \<times> world" where
  "apply_unprocessed host [] processedCalendars w = (processedCalendars, w)"
| "apply_unprocessed host (calendarLabel # rest) processedCalendars w =
     (case ctFindAndScrollToCheckbox host calendarLabel w of
        (Inl e, w1) \<Rightarrow> apply_unprocessed host rest processedCalendars w1
      | (Inr None, w1) \<Rightarrow> apply_unprocessed host rest processedCalendars w1
      | (Inr (Some checkbox), w1) \<Rightarrow>
          apply_unprocessed host rest (insert calendarLabel processedCalendars)
            (if \<not> checkedness (pg w1) checkbox then ctToggleCheckbox checkbox True w1 else w1))"

definition ctApplyCalendarGroup ::
  "host \<Rightarrow> CalendarGroup \<Rightarrow> bool \<Rightarrow> world \<Rightarrow> (error + unit) \<times> world" where
  "ctApplyCalendarGroup host grp disableOthers w =
     (case ctGetCalendarCheckboxes host w of
        (Inl e, w1) \<Rightarrow> (Inl e, w1)
      | (Inr initialCheckboxes, w1) \<Rightarrow>
          if length initialCheckboxes = 0 then (Inr (), w1)
          else (case apply_initial (calendars grp) disableOthers initialCheckboxes {} w1 of
                  (processedCalendars, w2) \<Rightarrow>
                    (let unprocessedCalendars =
                           filter (\<lambda>calendar. calendar \<notin> processedCalendars) (calendars grp)
                     in if length unprocessedCalendars > 0
                        then (Inr (), snd (apply_unprocessed host unprocessedCalendars
                                             processedCalendars w2))
                        else (Inr (), w2))))"


section \<open>Notions used in the statements\<close>

text \<open>
  What the claim about the collector calls the result: the checkboxes of the section whose
  label is not null, in document order, each with its label and its live checked state.
\<close>

definition labelled_toggles :: "page \<Rightarrow> path \<Rightarrow> CalendarCheckbox list" where
  "labelled_toggles p section =
     map (\<lambda>checkbox. \<lparr>element = checkbox, label = the (ctGetCalendarLabel (tree p) checkbox),
                       checked = checkedness p checkbox\<rparr>)
       (filter (\<lambda>checkbox. ctGetCalendarLabel (tree p) checkbox \<noteq> None)
          (querySelectorAll (tree p) section CT_CHECKBOX_SELECTOR))"

text \<open>
  A host page that never changes anything by itself.
\<close>

definition static_host :: host where
  "static_host = (\<lambda>t p. p)"

text \<open>
  No activation among the effects.
\<close>

definition no_clicks :: "effect list \<Rightarrow> bool" where
  "no_clicks es = list_all (\<lambda>e. case e of Click p b \<Rightarrow> False | _ \<Rightarrow> True) es"

text \<open>
  The handles the collector returns on a page when the section is found at once.
\<close>

definition snapshot :: "page \<Rightarrow> CalendarCheckbox list" where
  "snapshot p = (case find_section_round (tree p) of
                   Inr (Some section) \<Rightarrow> labelled_toggles p section | _ \<Rightarrow> [])"

text \<open>
  The state the first pass wants a handle in.
\<close>

definition target :: "jstring list \<Rightarrow> bool \<Rightarrow> CalendarCheckbox \<Rightarrow> bool" where
  "target cals disableOthers h \<longleftrightarrow> label h \<in> set cals \<or> (\<not> disableOthers \<and> checked h)"

text \<open>
  The state the first pass really leaves it in: a disabled control keeps its state.
\<close>

definition settled :: "node \<Rightarrow> jstring list \<Rightarrow> bool \<Rightarrow> CalendarCheckbox \<Rightarrow> bool" where
  "settled doc cals disableOthers h =
     (if is_disabled doc (element h) then checked h else target cals disableOthers h)"

text \<open>
  The activation the first pass performs for a handle: one click if the state differs.
\<close>

definition clicks_for :: "jstring list \<Rightarrow> bool \<Rightarrow> CalendarCheckbox \<Rightarrow> effect list" where
  "clicks_for cals disableOthers h =
     (if checked h \<noteq> target cals disableOthers h
      then [Click (element h) (target cals disableOthers h)] else [])"

text \<open>
  Every activation among the effects asks for the checked state: it is a click on an
  unchecked toggle, and turns it on unless the toggle is disabled.
\<close>

definition only_checks :: "effect list \<Rightarrow> bool" where
  "only_checks es = list_all (\<lambda>e. case e of Click p b \<Rightarrow> b | _ \<Rightarrow> True) es"

text \<open>
  The effects of a sweep that requests the offsets \<open>vs\<close> of the container \<open>c\<close>.
\<close>

definition sweep_effects :: "path \<Rightarrow> int list \<Rightarrow> effect list" where
  "sweep_effects c vs = concat (map (\<lambda>v. [Scroll c v, Sleep 300]) vs)"

text \<open>
  The offsets the downward sweep requests in \<open>m\<close> steps of 200.
\<close>

fun down_offsets :: "int \<Rightarrow> nat \<Rightarrow> int list" where
  "down_offsets cur 0 = []"
| "down_offsets cur (Suc m) = (cur + 200) # down_offsets (cur + 200) m"

text \<open>
  The offsets the upward sweep requests in \<open>m\<close> steps of 200, not below zero.
\<close>

fun up_offsets :: "int \<Rightarrow> nat \<Rightarrow> int list" where
  "up_offsets cur 0 = []"
| "up_offsets cur (Suc m) = max 0 (cur - 200) # up_offsets (max 0 (cur - 200)) m"

text \<open>
  One poll of the load gate: \<open>k\<close> retries of the locator, then the poll interval.
\<close>

definition poll_effects :: "nat \<Rightarrow> effect list" where
  "poll_effects k = replicate k (Sleep 500) @ [Sleep 1000]"

text \<open>
  What the second pass of the reconciler finds: the labels for which its search returns a
  toggle, in order, each with that toggle and whether the toggle is disabled in the page of
  that moment. The searches run as the pass runs them, one after the other, an unchecked
  toggle being activated in between.
\<close>

fun scroll_finds :: "host \<Rightarrow> jstring list \<Rightarrow> world \<Rightarrow> (jstring \<times> path \<times> bool) list" where
  "scroll_finds host [] w = []"
| "scroll_finds host (calendarLabel # rest) w =
     (case ctFindAndScrollToCheckbox host calendarLabel w of
        (Inl e, w1) \<Rightarrow> scroll_finds host rest w1
      | (Inr None, w1) \<Rightarrow> scroll_finds host rest w1
      | (Inr (Some checkbox), w1) \<Rightarrow>
          (calendarLabel, checkbox, is_disabled (tree (pg w1)) checkbox)
            # scroll_finds host rest
                (if \<not> checkedness (pg w1) checkbox then ctToggleCheckbox checkbox True w1 else w1))"



text \<open>
  The world after a sequence of sleeps, and nothing else, from \<open>w\<close>.
\<close>

fun sleeps :: "host \<Rightarrow> int list \<Rightarrow> world \<Rightarrow> world" where
  "sleeps host [] w = w"
| "sleeps host (ms # rest) w = sleeps host rest (ctSleep host ms w)"

text \<open>
  The sleeps of one poll of the load gate: \<open>k\<close> retries of the locator, then the poll
  interval.
\<close>

definition poll_sleeps :: "nat \<Rightarrow> int list" where
  "poll_sleeps k = replicate k 500 @ [1000]"

text \<open>
  A round of the locator finds no section in the page of this world.
\<close>

definition no_section :: "world \<Rightarrow> bool" where
  "no_section w \<longleftrightarrow> find_section_round (tree (pg w)) = Inr None"

text \<open>
  The schedule of the load gate when it never gets a handle, from the world \<open>w\<close>: a poll
  starts while less than 30000 ms have passed since \<open>startTime\<close>; it takes \<open>k\<close> retries of
  the locator, where \<open>k\<close> is the number of sleeps after which a round first finds a section,
  or 10 when the first ten rounds find none; then comes the poll interval. The schedule
  ends at the first poll boundary at which 30000 ms have passed.
\<close>

fun polled :: "host \<Rightarrow> int \<Rightarrow> nat list \<Rightarrow> world \<Rightarrow> bool" where
  "polled host startTime [] w = (30000 \<le> now w - startTime)"
| "polled host startTime (k # ks) w =
     (now w - startTime < 30000 \<and> k \<le> 10
      \<and> list_all (\<lambda>j. no_section (sleeps host (replicate j 500) w)) [0..<k]
      \<and> (k < 10 \<longrightarrow> \<not> no_section (sleeps host (replicate k 500) w))
      \<and> polled host startTime ks (sleeps host (poll_sleeps k) w))"


section \<open>Example pages\<close>

text \<open>
  Small documents, pages and a group, for the witnesses and counterexamples. Every page
  has a scroll range of 600 (scroll height 1000, client height 400) under every path.
\<close>

definition checkbox_input :: "(jstring \<times> jstring) list \<Rightarrow> node" where
  "checkbox_input attrs = Elem (js ''input'') ((js ''type'', js ''checkbox'') # attrs) []"

definition html_page :: "node list \<Rightarrow> node" where
  "html_page content = Elem (js ''html'') [] [Elem (js ''head'') [] [], Elem (js ''body'') [] content]"

definition page_of :: "node \<Rightarrow> path list \<Rightarrow> page" where
  "page_of doc on = \<lparr>tree = doc, checkedness = (\<lambda>p. p \<in> set on), scrollTop = (\<lambda>p. 0),
                     scrollHeight = (\<lambda>p. 1000), clientHeight = (\<lambda>p. 400)\<rparr>"

definition world_of :: "page \<Rightarrow> world" where
  "world_of p = \<lparr>pg = p, now = 0, trace = []\<rparr>"

text \<open>
  A host that re-renders the same tree after every sleep and keeps the properties.
\<close>

definition rerender_host :: "node \<Rightarrow> host" where
  "rerender_host doc = (\<lambda>t p. p\<lparr>tree := doc\<rparr>)"

definition doc_ref_blank :: node where
  "doc_ref_blank = html_page
     [Elem (js ''div'') []
        [Elem (js ''span'') [(js ''id'', js ''x'')] [Text (js ''  '')],
         checkbox_input [(js ''aria-labelledby'', js ''x''), (js ''aria-label'', js ''Direct'')]]]"

definition doc_ref :: node where
  "doc_ref = html_page
     [Elem (js ''div'') []
        [Elem (js ''span'') [(js ''id'', js ''x'')] [Text (js '' Work '')],
         checkbox_input [(js ''aria-labelledby'', js ''x''), (js ''aria-label'', js ''Direct'')]]]"

definition doc_text_checkbox :: node where
  "doc_text_checkbox = html_page
     [Elem (js ''div'') [] [Elem (js ''span'') [] [Text (js ''checkbox A'')], checkbox_input []]]"

definition doc_text_plain :: node where
  "doc_text_plain = html_page
     [Elem (js ''div'') [] [Elem (js ''span'') [] [Text (js '' Holidays '')], checkbox_input []]]"

definition doc_trailing_space :: node where
  "doc_trailing_space = html_page
     [Elem (js ''div'') [(js ''role'', js ''tree'')] [checkbox_input [(js ''aria-label'', js ''A '')]]]"

definition doc_outside :: node where
  "doc_outside = html_page
     [Elem (js ''div'') [(js ''role'', js ''tree'')] [checkbox_input [(js ''aria-label'', js ''A'')]],
      checkbox_input [(js ''aria-label'', js ''B'')]]"

definition doc_bare :: node where
  "doc_bare = html_page [checkbox_input []]"

definition doc_empty :: node where
  "doc_empty = html_page []"


definition group_a :: CalendarGroup where
  "group_a = \<lparr>ident = js ''g1'', name = js ''Team'', calendars = [js ''A''], createdAt = 0, updatedAt = 0\<rparr>"










section \<open>Properties of the discovery layer\<close>

lemma label_by_parents_nonempty: "label_by_parents doc ps = Some l \<Longrightarrow> l \<noteq> []"
  by (induction ps) (auto simp: Let_def split: if_splits)

lemma label_by_data_nonempty: "label_by_data doc c = Some l \<Longrightarrow> l \<noteq> []"
  by (auto simp: label_by_data_def Let_def split: if_splits)

lemma label_by_reference_nonempty: "label_by_reference doc c = Some l \<Longrightarrow> l \<noteq> []"
  by (auto simp: label_by_reference_def Let_def split: if_splits option.splits)

lemma label_by_aria_label_nonempty: "label_by_aria_label doc c = Some l \<Longrightarrow> l \<noteq> []"
  by (auto simp: label_by_aria_label_def Let_def split: if_splits)

lemma label_by_container_nonempty: "label_by_container doc c = Some l \<Longrightarrow> l \<noteq> []"
  by (auto simp: label_by_container_def Let_def split: if_splits option.splits)

lemma label_nonempty: "ctGetCalendarLabel doc c = Some l \<Longrightarrow> l \<noteq> []"
  unfolding ctGetCalendarLabel_def
  by (auto split: option.splits
      dest: label_by_reference_nonempty label_by_aria_label_nonempty label_by_container_nonempty
        label_by_parents_nonempty label_by_data_nonempty)

lemma find_section_round_no_error: "find_section_round doc \<noteq> Inl e"
  by (auto simp: find_section_round_def Let_def split: option.splits list.splits)

lemma find_section_rounds_no_error: "fst (find_section_rounds host n w) \<noteq> Inl e"
  by (induction n arbitrary: w) (auto simp: find_section_round_no_error split: sum.splits option.splits)

lemma ctFindCalendarSection_returns: "\<exists>r w1. ctFindCalendarSection host w = (Inr r, w1)"
proof -
  obtain x w1 where eq: "find_section_rounds host 10 w = (x, w1)" by (cases "find_section_rounds host 10 w")
  with find_section_rounds_no_error [of host 10 w] obtain r where "x = Inr r" by (cases x) auto
  with eq show ?thesis by (simp add: ctFindCalendarSection_def)
qed

lemma drawer_no_error: "ctFindDrawerScrollContainer doc \<noteq> Inl e"
  by (auto simp: ctFindDrawerScrollContainer_def Let_def split: option.splits list.splits)

lemma collect_checkboxes_eq:
  "collect_checkboxes p cs acc =
     acc @ map (\<lambda>checkbox. \<lparr>element = checkbox, label = the (ctGetCalendarLabel (tree p) checkbox),
                       checked = checkedness p checkbox\<rparr>)
       (filter (\<lambda>checkbox. ctGetCalendarLabel (tree p) checkbox \<noteq> None) cs)"
  by (induction cs arbitrary: acc) (auto split: option.splits dest: label_nonempty)


subsection \<open>Handles refer to distinct elements\<close>

lemma elems_list_first: "q \<in> set (elems_list i ks) \<Longrightarrow> \<exists>j r. q = j # r \<and> i \<le> j"
proof (induction ks arbitrary: i)
  case Nil
  then show ?case by simp
next
  case (Cons k ks)
  from Cons.prems consider "q \<in> (#) i ` set (elems k)" | "q \<in> set (elems_list (Suc i) ks)"
    by auto
  then show ?case
  proof cases
    case 1
    then show ?thesis by auto
  next
    case 2
    from Cons.IH [OF 2] show ?thesis by (metis Suc_leD)
  qed
qed

lemma distinct_elems: "distinct (elems n)" and distinct_elems_list: "distinct (elems_list i ks)"
proof (induction n and i ks rule: elems_elems_list.induct)
  case (1 s)
  then show ?case by simp
next
  case (2 t a ks)
  have "[] \<notin> set (elems_list 0 ks)" using elems_list_first by blast
  with 2 show ?case by simp
next
  case (3 i)
  then show ?case by simp
next
  case (4 i k ks)
  have "(#) i ` set (elems k) \<inter> set (elems_list (Suc i) ks) = {}"
    using elems_list_first [of _ "Suc i" ks] by fastforce
  with 4 show ?case by (simp add: distinct_map)
qed

lemma distinct_descendants: "distinct (descendants doc p)"
  by (auto simp: descendants_def distinct_map distinct_tl distinct_elems inj_on_def split: option.splits)

lemma distinct_querySelectorAll: "distinct (querySelectorAll doc p sels)"
  by (simp add: querySelectorAll_def distinct_descendants)

lemma element_labelled_toggles:
  "map element (labelled_toggles p s) =
     filter (\<lambda>c. ctGetCalendarLabel (tree p) c \<noteq> None) (querySelectorAll (tree p) s CT_CHECKBOX_SELECTOR)"
  by (simp add: labelled_toggles_def comp_def)

lemma distinct_labelled_toggles: "distinct (map element (labelled_toggles p s))"
  by (simp add: element_labelled_toggles distinct_querySelectorAll)

lemma labelled_toggles_sound:
  "h \<in> set (labelled_toggles p s) \<Longrightarrow>
     ctGetCalendarLabel (tree p) (element h) = Some (label h) \<and> checked h = checkedness p (element h)"
  by (auto simp: labelled_toggles_def)


subsection \<open>Effects on the page\<close>

lemma pg_click [simp]: "tree (pg (click p w)) = tree (pg w)"
  "checkedness (pg (click p w)) =
     (if is_disabled (tree (pg w)) p then checkedness (pg w)
      else (checkedness (pg w))(p := \<not> checkedness (pg w) p))"
  "trace (click p w) = trace w @ [Click p (\<not> checkedness (pg w) p)]"
  "now (click p w) = now w"
  by (simp_all add: click_def)

lemma toggle_simps:
  "tree (pg (ctToggleCheckbox p b w)) = tree (pg w)"
  "checkedness (pg (ctToggleCheckbox p b w)) =
     (if is_disabled (tree (pg w)) p then checkedness (pg w) else (checkedness (pg w))(p := b))"
  "trace (ctToggleCheckbox p b w) = trace w @ (if checkedness (pg w) p \<noteq> b then [Click p b] else [])"
  by (auto simp: ctToggleCheckbox_def fun_eq_iff)

lemma set_scrollTop_simps [simp]:
  "tree (pg (set_scrollTop p v w)) = tree (pg w)"
  "checkedness (pg (set_scrollTop p v w)) = checkedness (pg w)"
  "trace (set_scrollTop p v w) = trace w @ [Scroll p v]"
  "now (set_scrollTop p v w) = now w"
  by (simp_all add: set_scrollTop_def)

lemma sleep_static [simp]:
  "pg (ctSleep static_host ms w) = pg w"
  "trace (ctSleep host ms w) = trace w @ [Sleep ms]"
  by (simp_all add: ctSleep_def static_host_def)

lemma no_clicks_simps [simp]: "no_clicks []" "no_clicks (es @ fs) = (no_clicks es \<and> no_clicks fs)"
  "no_clicks (Sleep n # es) = no_clicks es" "no_clicks (Scroll p v # es) = no_clicks es"
  "no_clicks (Click p b # es) = False"
  by (simp_all add: no_clicks_def)


subsection \<open>Discovery on a page that does not change\<close>

lemma find_section_rounds_static:
  "\<exists>w1 es. find_section_rounds static_host n w =
       (if n = 0 then Inr None else find_section_round (tree (pg w)), w1)
     \<and> pg w1 = pg w \<and> trace w1 = trace w @ es \<and> no_clicks es"
proof (induction n arbitrary: w)
  case 0
  then show ?case by simp
next
  case (Suc n)
  show ?case
  proof (cases "find_section_round (tree (pg w))")
    case (Inl e)
    then show ?thesis by simp
  next
    case (Inr r)
    show ?thesis
    proof (cases r)
      case None
      from Suc.IH [of "ctSleep static_host 500 w"] obtain w1 es where
        "find_section_rounds static_host n (ctSleep static_host 500 w) =
           (if n = 0 then Inr None else find_section_round (tree (pg w)), w1)"
        "pg w1 = pg w" "trace w1 = trace w @ [Sleep 500] @ es" "no_clicks es"
        by auto
      with Inr None show ?thesis by auto
    next
      case (Some s)
      with Inr show ?thesis by simp
    qed
  qed
qed

lemma collect_static:
  "\<exists>w1 es. ctGetCalendarCheckboxes static_host w = (Inr (snapshot (pg w)), w1)
     \<and> pg w1 = pg w \<and> trace w1 = trace w @ es \<and> no_clicks es"
proof -
  from find_section_rounds_static [of 10 w] obtain w1 es where
    "find_section_rounds static_host 10 w = (find_section_round (tree (pg w)), w1)"
    "pg w1 = pg w" "trace w1 = trace w @ es" "no_clicks es" by auto
  then show ?thesis
    using find_section_round_no_error [of "tree (pg w)"]
    by (auto simp: ctGetCalendarCheckboxes_def ctFindCalendarSection_def snapshot_def
          labelled_toggles_def collect_checkboxes_eq split: sum.splits option.splits)
qed

lemma scroll_down_static:
  "ctFindCheckboxByLabel (tree (pg w)) l = None \<Longrightarrow>
   \<exists>w1 es. scroll_down static_host l c n cur w = (None, w1)
     \<and> tree (pg w1) = tree (pg w) \<and> checkedness (pg w1) = checkedness (pg w)
     \<and> trace w1 = trace w @ es \<and> no_clicks es"
proof (induction n arbitrary: w cur)
  case 0
  then show ?case by simp
next
  case (Suc n)
  let ?w1 = "ctSleep static_host 300 (set_scrollTop c (cur + 200) w)"
  have t: "tree (pg ?w1) = tree (pg w)" and k: "checkedness (pg ?w1) = checkedness (pg w)"
    and tr: "trace ?w1 = trace w @ [Scroll c (cur + 200), Sleep 300]" by simp_all
  from Suc.prems t have nf: "ctFindCheckboxByLabel (tree (pg ?w1)) l = None" by simp
  from Suc.IH [OF nf, of "cur + 200"] obtain w2 es where
    "scroll_down static_host l c n (cur + 200) ?w1 = (None, w2)"
    "tree (pg w2) = tree (pg w)" "checkedness (pg w2) = checkedness (pg w)"
    "trace w2 = trace w @ [Scroll c (cur + 200), Sleep 300] @ es" "no_clicks es"
    using t k tr by auto
  with nf t k tr show ?case by (auto simp: Let_def)
qed

lemma scroll_up_static:
  "ctFindCheckboxByLabel (tree (pg w)) l = None \<Longrightarrow>
   \<exists>w1 es. scroll_up static_host l c n cur w = (None, w1)
     \<and> tree (pg w1) = tree (pg w) \<and> checkedness (pg w1) = checkedness (pg w)
     \<and> trace w1 = trace w @ es \<and> no_clicks es"
proof (induction n arbitrary: w cur)
  case 0
  then show ?case by simp
next
  case (Suc n)
  let ?v = "max 0 (cur - 200)"
  let ?w1 = "ctSleep static_host 300 (set_scrollTop c ?v w)"
  have t: "tree (pg ?w1) = tree (pg w)" and k: "checkedness (pg ?w1) = checkedness (pg w)"
    and tr: "trace ?w1 = trace w @ [Scroll c ?v, Sleep 300]" by simp_all
  from Suc.prems t have nf: "ctFindCheckboxByLabel (tree (pg ?w1)) l = None" by simp
  from Suc.IH [OF nf, of ?v] obtain w2 es where
    "scroll_up static_host l c n ?v ?w1 = (None, w2)"
    "tree (pg w2) = tree (pg w)" "checkedness (pg w2) = checkedness (pg w)"
    "trace w2 = trace w @ [Scroll c ?v, Sleep 300] @ es" "no_clicks es"
    using t k tr by auto
  with nf t k tr show ?case by (auto simp: Let_def)
qed

lemma find_and_scroll_static:
  "\<exists>w1 es. ctFindAndScrollToCheckbox static_host l w = (Inr (ctFindCheckboxByLabel (tree (pg w)) l), w1)
     \<and> tree (pg w1) = tree (pg w) \<and> checkedness (pg w1) = checkedness (pg w)
     \<and> trace w1 = trace w @ es \<and> no_clicks es"
proof (cases "ctFindCheckboxByLabel (tree (pg w)) l")
  case (Some p)
  then show ?thesis by (simp add: ctFindAndScrollToCheckbox_def)
next
  case None
  show ?thesis
  proof (cases "ctFindDrawerScrollContainer (tree (pg w))")
    case (Inl e)
    then show ?thesis using drawer_no_error by blast
  next
    case (Inr r)
    show ?thesis
    proof (cases r)
      case None
      with Inr \<open>ctFindCheckboxByLabel (tree (pg w)) l = None\<close> show ?thesis
        by (simp add: ctFindAndScrollToCheckbox_def)
    next
      case (Some c)
      from scroll_down_static [OF \<open>ctFindCheckboxByLabel (tree (pg w)) l = None\<close>, of c 10 "scrollTop (pg w) c"]
      obtain w1 es where d: "scroll_down static_host l c 10 (scrollTop (pg w) c) w = (None, w1)"
        "tree (pg w1) = tree (pg w)" "checkedness (pg w1) = checkedness (pg w)"
        "trace w1 = trace w @ es" "no_clicks es" by blast
      then have "ctFindCheckboxByLabel (tree (pg w1)) l = None" using None by simp
      from scroll_up_static [OF this, of c 10 "scrollTop (pg w1) c"]
      obtain w2 fs where u: "scroll_up static_host l c 10 (scrollTop (pg w1) c) w1 = (None, w2)"
        "tree (pg w2) = tree (pg w1)" "checkedness (pg w2) = checkedness (pg w1)"
        "trace w2 = trace w1 @ fs" "no_clicks fs" by blast
      from d u Inr Some None show ?thesis
        by (simp add: ctFindAndScrollToCheckbox_def)
    qed
  qed
qed


subsection \<open>The two passes of the reconciler\<close>

lemma apply_initial_step:
  fixes cals :: "jstring list" and d :: bool
  assumes "checked h = checkedness (pg w) (element h)"
  defines "w1 \<equiv> (if label h \<in> set cals \<and> \<not> checked h then ctToggleCheckbox (element h) True w
                else if \<not> label h \<in> set cals \<and> checked h \<and> d then ctToggleCheckbox (element h) False w
                else w)"
  shows "tree (pg w1) = tree (pg w)"
    and "checkedness (pg w1) = (checkedness (pg w))(element h := settled (tree (pg w)) cals d h)"
    and "trace w1 = trace w @ clicks_for cals d h"
  using assms(1) unfolding w1_def
  by (auto simp: toggle_simps target_def settled_def clicks_for_def fun_eq_iff)

lemma apply_initial_effect:
  assumes "distinct (map element hs)"
    and "\<forall>h\<in>set hs. checked h = checkedness (pg w) (element h)"
  shows "\<exists>w'. apply_initial cals d hs P w = (P \<union> label ` set hs, w')
     \<and> tree (pg w') = tree (pg w)
     \<and> (\<forall>h\<in>set hs. checkedness (pg w') (element h) = settled (tree (pg w)) cals d h)
     \<and> (\<forall>p. p \<notin> element ` set hs \<longrightarrow> checkedness (pg w') p = checkedness (pg w) p)
     \<and> trace w' = trace w @ concat (map (clicks_for cals d) hs)"
  using assms
proof (induction hs arbitrary: w P)
  case Nil
  then show ?case by simp
next
  case (Cons h hs)
  define w1 where "w1 = (if label h \<in> set cals \<and> \<not> checked h then ctToggleCheckbox (element h) True w
                else if \<not> label h \<in> set cals \<and> checked h \<and> d then ctToggleCheckbox (element h) False w
                else w)"
  from Cons.prems have live: "checked h = checkedness (pg w) (element h)" by simp
  note step = apply_initial_step [OF live, of cals d, folded w1_def]
  from Cons.prems have dist: "distinct (map element hs)" and notin: "element h \<notin> element ` set hs"
    by auto
  have rest: "\<forall>h'\<in>set hs. checked h' = checkedness (pg w1) (element h')"
  proof
    fix h' assume h': "h' \<in> set hs"
    then have "element h' \<in> element ` set hs" by (rule imageI)
    with notin have "element h' \<noteq> element h" by metis
    with h' Cons.prems(2) step(2) show "checked h' = checkedness (pg w1) (element h')" by simp
  qed
  from Cons.IH [OF dist rest, of "insert (label h) P"] obtain w' where
    r: "apply_initial cals d hs (insert (label h) P) w1 = (insert (label h) P \<union> label ` set hs, w')"
      "tree (pg w') = tree (pg w1)"
      "\<forall>h'\<in>set hs. checkedness (pg w') (element h') = settled (tree (pg w1)) cals d h'"
      "\<forall>p. p \<notin> element ` set hs \<longrightarrow> checkedness (pg w') p = checkedness (pg w1) p"
      "trace w' = trace w1 @ concat (map (clicks_for cals d) hs)"
    by blast
  have eq: "apply_initial cals d (h # hs) P w = apply_initial cals d hs (insert (label h) P) w1"
    by (simp add: w1_def Let_def)
  have "checkedness (pg w') (element h) = settled (tree (pg w)) cals d h"
    using r(4) notin step(2) by simp
  moreover have "\<forall>p. p \<notin> element ` set (h # hs) \<longrightarrow> checkedness (pg w') p = checkedness (pg w) p"
    using r(4) step(2) by simp
  ultimately show ?case
    using eq r step by auto
qed

lemma find_by_label_sound:
  "find_by_label doc tgt cs = Some p \<Longrightarrow>
     p \<in> set cs \<and> (\<exists>l. ctGetCalendarLabel doc p = Some l \<and> js_trim l = tgt)"
  by (induction cs) (auto split: option.splits if_splits)

lemma ctFindCheckboxByLabel_sound:
  "ctFindCheckboxByLabel doc c = Some p \<Longrightarrow>
     \<exists>l. ctGetCalendarLabel doc p = Some l \<and> js_trim l = js_trim c"
  unfolding ctFindCheckboxByLabel_def by (blast dest: find_by_label_sound)

lemma only_checks_simps [simp]: "only_checks []" "only_checks (es @ fs) = (only_checks es \<and> only_checks fs)"
  "only_checks (Sleep n # es) = only_checks es" "only_checks (Scroll p v # es) = only_checks es"
  "only_checks (Click p b # es) = (b \<and> only_checks es)"
  by (simp_all add: only_checks_def)

lemma no_clicks_only_checks: "no_clicks es \<Longrightarrow> only_checks es"
  by (induction es) (auto simp: no_clicks_def only_checks_def split: effect.splits)

lemma apply_unprocessed_static:
  "\<exists>P' w' es. apply_unprocessed static_host cs P w = (P', w')
     \<and> tree (pg w') = tree (pg w)
     \<and> (\<forall>q. checkedness (pg w') q =
            (checkedness (pg w) q
              \<or> (\<exists>c\<in>set cs. ctFindCheckboxByLabel (tree (pg w)) c = Some q \<and> \<not> is_disabled (tree (pg w)) q)))
     \<and> trace w' = trace w @ es \<and> only_checks es
     \<and> ((\<forall>c\<in>set cs. \<forall>q. ctFindCheckboxByLabel (tree (pg w)) c = Some q \<longrightarrow> checkedness (pg w) q)
          \<longrightarrow> no_clicks es)"
proof (induction cs arbitrary: P w)
  case Nil
  then show ?case by simp
next
  case (Cons c cs)
  from find_and_scroll_static [of c w] obtain w1 es where
    f: "ctFindAndScrollToCheckbox static_host c w = (Inr (ctFindCheckboxByLabel (tree (pg w)) c), w1)"
      "tree (pg w1) = tree (pg w)" "checkedness (pg w1) = checkedness (pg w)"
      "trace w1 = trace w @ es" "no_clicks es" by blast
  show ?case
  proof (cases "ctFindCheckboxByLabel (tree (pg w)) c")
    case None
    from Cons.IH [of P w1] obtain P' w' fs where
      r: "apply_unprocessed static_host cs P w1 = (P', w')" "tree (pg w') = tree (pg w1)"
      "\<forall>q. checkedness (pg w') q =
            (checkedness (pg w1) q
              \<or> (\<exists>c\<in>set cs. ctFindCheckboxByLabel (tree (pg w1)) c = Some q \<and> \<not> is_disabled (tree (pg w1)) q))"
      "trace w' = trace w1 @ fs" "only_checks fs"
      "(\<forall>c\<in>set cs. \<forall>q. ctFindCheckboxByLabel (tree (pg w1)) c = Some q \<longrightarrow> checkedness (pg w1) q)
          \<longrightarrow> no_clicks fs" by blast
    have "apply_unprocessed static_host (c # cs) P w = (P', w')"
      using f(1) None r(1) by simp
    moreover have "trace w' = trace w @ (es @ fs)" using f(4) r(4) by simp
    moreover have "only_checks (es @ fs)" using f(5) r(5) by (simp add: no_clicks_only_checks)
    ultimately show ?thesis
      using None f r by (intro exI [of _ P'] exI [of _ w'] exI [of _ "es @ fs"]) auto
  next
    case (Some p)
    define w2 where "w2 = (if \<not> checkedness (pg w1) p then ctToggleCheckbox p True w1 else w1)"
    have w2: "tree (pg w2) = tree (pg w)"
      "checkedness (pg w2) =
         (if is_disabled (tree (pg w)) p then checkedness (pg w) else (checkedness (pg w))(p := True))"
      "trace w2 = trace w1 @ (if checkedness (pg w) p then [] else [Click p True])"
      using f by (auto simp: w2_def toggle_simps fun_eq_iff)
    from Cons.IH [of "insert c P" w2] obtain P' w' fs where
      r: "apply_unprocessed static_host cs (insert c P) w2 = (P', w')" "tree (pg w') = tree (pg w2)"
      "\<forall>q. checkedness (pg w') q =
            (checkedness (pg w2) q
              \<or> (\<exists>c\<in>set cs. ctFindCheckboxByLabel (tree (pg w2)) c = Some q \<and> \<not> is_disabled (tree (pg w2)) q))"
      "trace w' = trace w2 @ fs" "only_checks fs"
      "(\<forall>c\<in>set cs. \<forall>q. ctFindCheckboxByLabel (tree (pg w2)) c = Some q \<longrightarrow> checkedness (pg w2) q)
          \<longrightarrow> no_clicks fs" by blast
    let ?mid = "if checkedness (pg w) p then [] else [Click p True]"
    have "apply_unprocessed static_host (c # cs) P w = (P', w')"
      using f(1) Some r(1) by (simp add: w2_def)
    moreover have "trace w' = trace w @ (es @ ?mid @ fs)" using f(4) r(4) w2(3) by simp
    moreover have "only_checks (es @ ?mid @ fs)" using f(5) r(5) by (simp add: no_clicks_only_checks)
    moreover have "\<forall>q. checkedness (pg w') q =
            (checkedness (pg w) q
              \<or> (\<exists>c'\<in>set (c # cs). ctFindCheckboxByLabel (tree (pg w)) c' = Some q \<and> \<not> is_disabled (tree (pg w)) q))"
      using r(3) w2 Some by auto
    moreover have "(\<forall>c'\<in>set (c # cs). \<forall>q. ctFindCheckboxByLabel (tree (pg w)) c' = Some q \<longrightarrow> checkedness (pg w) q)
          \<longrightarrow> no_clicks (es @ ?mid @ fs)"
      using r(6) w2 Some f(5) by auto
    ultimately show ?thesis
      using r(2) w2(1) by (intro exI [of _ P'] exI [of _ w'] exI [of _ "es @ ?mid @ fs"]) simp
  qed
qed


subsection \<open>The reconciler on a page that does not change\<close>

lemma snapshot_sound:
  "h \<in> set (snapshot p) \<Longrightarrow>
     ctGetCalendarLabel (tree p) (element h) = Some (label h) \<and> checked h = checkedness p (element h)"
  by (auto simp: snapshot_def dest: labelled_toggles_sound split: sum.splits option.splits)

lemma distinct_snapshot: "distinct (map element (snapshot p))"
  by (auto simp: snapshot_def distinct_labelled_toggles split: sum.splits option.splits)

lemma snapshot_same_tree:
  "tree p' = tree p \<Longrightarrow>
     snapshot p' = map (\<lambda>h. h\<lparr>checked := checkedness p' (element h)\<rparr>) (snapshot p)"
  by (auto simp: snapshot_def labelled_toggles_def split: sum.splits option.splits)

lemma clicks_for_only_checks: "only_checks (concat (map (clicks_for cals False) hs))"
  by (induction hs) (auto simp: clicks_for_def target_def)

lemma clicks_for_none:
  "\<forall>h\<in>set hs. checked h = target cals d h \<Longrightarrow> concat (map (clicks_for cals d) hs) = []"
  by (induction hs) (auto simp: clicks_for_def)

text \<open>
  The final state and the effects of \<open>ctApplyCalendarGroup\<close> on a page that does not change.
\<close>

lemma apply_static:
  fixes grp :: CalendarGroup and d :: bool and w :: world
  defines "hs \<equiv> snapshot (pg w)"
  defines "cs \<equiv> filter (\<lambda>c. c \<notin> label ` set hs) (calendars grp)"
  shows "\<exists>w' es. ctApplyCalendarGroup static_host grp d w = (Inr (), w')
     \<and> tree (pg w') = tree (pg w)
     \<and> (hs = [] \<longrightarrow> checkedness (pg w') = checkedness (pg w) \<and> no_clicks es)
     \<and> (hs \<noteq> [] \<longrightarrow>
          (\<forall>h\<in>set hs. checkedness (pg w') (element h) =
              (settled (tree (pg w)) (calendars grp) d h
                \<or> (\<exists>c\<in>set cs. ctFindCheckboxByLabel (tree (pg w)) c = Some (element h)
                       \<and> \<not> is_disabled (tree (pg w)) (element h))))
        \<and> (\<forall>q. q \<notin> element ` set hs \<longrightarrow> checkedness (pg w') q =
              (checkedness (pg w) q
                \<or> (\<exists>c\<in>set cs. ctFindCheckboxByLabel (tree (pg w)) c = Some q \<and> \<not> is_disabled (tree (pg w)) q))))
     \<and> trace w' = trace w @ es
     \<and> (\<not> d \<longrightarrow> only_checks es)
     \<and> ((\<forall>h\<in>set hs. checked h = target (calendars grp) d h)
          \<and> (\<forall>c\<in>set cs. \<forall>q. ctFindCheckboxByLabel (tree (pg w)) c = Some q \<longrightarrow> checkedness (pg w) q)
          \<longrightarrow> no_clicks es)"
proof -
  from collect_static [of w] obtain w1 es0 where
    c: "ctGetCalendarCheckboxes static_host w = (Inr hs, w1)" "pg w1 = pg w"
       "trace w1 = trace w @ es0" "no_clicks es0"
    unfolding hs_def by blast
  show ?thesis
  proof (cases "hs = []")
    case True
    with c show ?thesis
      by (auto simp: ctApplyCalendarGroup_def no_clicks_only_checks)
  next
    case False
    have dist: "distinct (map element hs)" unfolding hs_def by (rule distinct_snapshot)
    have live: "\<forall>h\<in>set hs. checked h = checkedness (pg w1) (element h)"
      using snapshot_sound [of _ "pg w"] c(2) unfolding hs_def by simp
    from apply_initial_effect [OF dist live, of "calendars grp" d "{}"] obtain w2 where
      p1: "apply_initial (calendars grp) d hs {} w1 = ({} \<union> label ` set hs, w2)"
        "tree (pg w2) = tree (pg w1)"
        "\<forall>h\<in>set hs. checkedness (pg w2) (element h) = settled (tree (pg w1)) (calendars grp) d h"
        "\<forall>p. p \<notin> element ` set hs \<longrightarrow> checkedness (pg w2) p = checkedness (pg w1) p"
        "trace w2 = trace w1 @ concat (map (clicks_for (calendars grp) d) hs)"
      by blast
    let ?es1 = "concat (map (clicks_for (calendars grp) d) hs)"
    from apply_unprocessed_static [of cs "label ` set hs" w2] obtain P' w3 es2 where
      p2: "apply_unprocessed static_host cs (label ` set hs) w2 = (P', w3)"
        "tree (pg w3) = tree (pg w2)"
        "\<forall>q. checkedness (pg w3) q =
            (checkedness (pg w2) q
              \<or> (\<exists>c\<in>set cs. ctFindCheckboxByLabel (tree (pg w2)) c = Some q \<and> \<not> is_disabled (tree (pg w2)) q))"
        "trace w3 = trace w2 @ es2" "only_checks es2"
        "(\<forall>c\<in>set cs. \<forall>q. ctFindCheckboxByLabel (tree (pg w2)) c = Some q \<longrightarrow> checkedness (pg w2) q)
          \<longrightarrow> no_clicks es2"
      by blast
    have tr: "tree (pg w2) = tree (pg w)" using p1(2) c(2) by simp
    have run: "ctApplyCalendarGroup static_host grp d w = (Inr (), w3)"
    proof (cases "cs = []")
      case True
      with p2(1) have "w3 = w2" by simp
      with c(1) False p1(1) True show ?thesis
        by (simp add: ctApplyCalendarGroup_def cs_def)
    next
      case nonempty: False
      with c(1) False p1(1) p2(1) show ?thesis
        by (simp add: ctApplyCalendarGroup_def cs_def)
    qed
    have trace: "trace w3 = trace w @ (es0 @ ?es1 @ es2)"
      using c(3) p1(5) p2(4) by simp
    have a: "\<forall>h\<in>set hs. checkedness (pg w3) (element h) =
              (settled (tree (pg w)) (calendars grp) d h
                \<or> (\<exists>c\<in>set cs. ctFindCheckboxByLabel (tree (pg w)) c = Some (element h)
                       \<and> \<not> is_disabled (tree (pg w)) (element h)))"
      using p2(3) p1(3) tr c(2) by simp
    have b: "\<forall>q. q \<notin> element ` set hs \<longrightarrow> checkedness (pg w3) q =
              (checkedness (pg w) q
                \<or> (\<exists>c\<in>set cs. ctFindCheckboxByLabel (tree (pg w)) c = Some q \<and> \<not> is_disabled (tree (pg w)) q))"
      using p2(3) p1(4) tr c(2) by simp
    have oc: "\<not> d \<longrightarrow> only_checks (es0 @ ?es1 @ es2)"
      using c(4) p2(5) clicks_for_only_checks [of "calendars grp" hs]
      by (auto simp: no_clicks_only_checks)
    have nc: "(\<forall>h\<in>set hs. checked h = target (calendars grp) d h)
          \<and> (\<forall>c\<in>set cs. \<forall>q. ctFindCheckboxByLabel (tree (pg w)) c = Some q \<longrightarrow> checkedness (pg w) q)
          \<longrightarrow> no_clicks (es0 @ ?es1 @ es2)"
    proof (intro impI, elim conjE)
      assume at: "\<forall>h\<in>set hs. checked h = target (calendars grp) d h"
        and found: "\<forall>c\<in>set cs. \<forall>q. ctFindCheckboxByLabel (tree (pg w)) c = Some q \<longrightarrow> checkedness (pg w) q"
      have "?es1 = []" using at by (rule clicks_for_none)
      then have e1: "no_clicks ?es1" by (simp only: no_clicks_simps)
      have same: "checkedness (pg w2) q = checkedness (pg w) q" for q
      proof (cases "q \<in> element ` set hs")
        case True
        then obtain h where "h \<in> set hs" "q = element h" by auto
        with p1(3) at live c(2) show ?thesis by (simp add: settled_def)
      next
        case False
        with p1(4) c(2) show ?thesis by simp
      qed
      with found tr p2(6) have "no_clicks es2" by simp
      with e1 c(4) show "no_clicks (es0 @ ?es1 @ es2)" by simp
    qed
    show ?thesis
      using run p2(2) tr False a b trace oc nc
      by (intro exI [of _ w3] exI [of _ "es0 @ ?es1 @ es2"]) simp
  qed
qed


subsection \<open>The sweeps, for any host\<close>

lemma scroll_down_effects:
  "\<exists>m r w1. m \<le> n \<and> scroll_down host l c n cur w = (r, w1)
     \<and> trace w1 = trace w @ sweep_effects c (down_offsets cur m)
     \<and> now w1 = now w + 300 * int m
     \<and> (r \<noteq> None \<longrightarrow> ctFindCheckboxByLabel (tree (pg w1)) l = r)
     \<and> ((\<forall>t p. ctFindCheckboxByLabel (tree (host t p)) l = None) \<longrightarrow> r = None)"
proof (induction n arbitrary: cur w)
  case 0
  show ?case by (intro exI [of _ 0]) (simp add: sweep_effects_def)
next
  case (Suc n)
  let ?w1 = "ctSleep host 300 (set_scrollTop c (cur + 200) w)"
  have tr: "trace ?w1 = trace w @ [Scroll c (cur + 200), Sleep 300]"
    and nw: "now ?w1 = now w + 300"
    and pgw: "pg ?w1 = host (now w + 300) (pg (set_scrollTop c (cur + 200) w))"
    by (simp_all add: ctSleep_def)
  show ?case
  proof (cases "ctFindCheckboxByLabel (tree (pg ?w1)) l")
    case (Some p)
    then have "scroll_down host l c (Suc n) cur w = (Some p, ?w1)" by (simp add: Let_def)
    moreover have "\<not> (\<forall>t p. ctFindCheckboxByLabel (tree (host t p)) l = None)"
      using Some pgw by (metis option.distinct(1))
    ultimately show ?thesis
      using tr nw Some by (intro exI [of _ 1] exI [of _ "Some p"] exI [of _ ?w1]) (simp add: sweep_effects_def)
  next
    case None
    show ?thesis
    proof (cases "scrollTop (pg ?w1) c \<ge> scrollHeight (pg ?w1) c - clientHeight (pg ?w1) c")
      case True
      with None have "scroll_down host l c (Suc n) cur w = (None, ?w1)" by (simp add: Let_def)
      then show ?thesis
        using tr nw by (intro exI [of _ 1] exI [of _ None] exI [of _ ?w1]) (simp add: sweep_effects_def)
    next
      case False
      from Suc.IH [of "cur + 200" ?w1] obtain m r w2 where
        ih: "m \<le> n" "scroll_down host l c n (cur + 200) ?w1 = (r, w2)"
          "trace w2 = trace ?w1 @ sweep_effects c (down_offsets (cur + 200) m)"
          "now w2 = now ?w1 + 300 * int m"
          "r \<noteq> None \<longrightarrow> ctFindCheckboxByLabel (tree (pg w2)) l = r"
          "(\<forall>t p. ctFindCheckboxByLabel (tree (host t p)) l = None) \<longrightarrow> r = None"
        by blast
      from None False ih(2) have "scroll_down host l c (Suc n) cur w = (r, w2)" by (simp add: Let_def)
      then show ?thesis
        using ih tr nw
        by (intro exI [of _ "Suc m"] exI [of _ r] exI [of _ w2]) (simp add: sweep_effects_def)
    qed
  qed
qed

lemma scroll_up_effects:
  "\<exists>m r w1. m \<le> n \<and> scroll_up host l c n cur w = (r, w1)
     \<and> trace w1 = trace w @ sweep_effects c (up_offsets cur m)
     \<and> now w1 = now w + 300 * int m
     \<and> (r \<noteq> None \<longrightarrow> ctFindCheckboxByLabel (tree (pg w1)) l = r)
     \<and> ((\<forall>t p. ctFindCheckboxByLabel (tree (host t p)) l = None) \<longrightarrow> r = None)"
proof (induction n arbitrary: cur w)
  case 0
  show ?case by (intro exI [of _ 0]) (simp add: sweep_effects_def)
next
  case (Suc n)
  let ?v = "max 0 (cur - 200)"
  let ?w1 = "ctSleep host 300 (set_scrollTop c ?v w)"
  have tr: "trace ?w1 = trace w @ [Scroll c ?v, Sleep 300]"
    and nw: "now ?w1 = now w + 300"
    and pgw: "pg ?w1 = host (now w + 300) (pg (set_scrollTop c ?v w))"
    by (simp_all add: ctSleep_def)
  show ?case
  proof (cases "ctFindCheckboxByLabel (tree (pg ?w1)) l")
    case (Some p)
    then have "scroll_up host l c (Suc n) cur w = (Some p, ?w1)" by (simp add: Let_def)
    moreover have "\<not> (\<forall>t p. ctFindCheckboxByLabel (tree (host t p)) l = None)"
      using Some pgw by (metis option.distinct(1))
    ultimately show ?thesis
      using tr nw Some by (intro exI [of _ 1] exI [of _ "Some p"] exI [of _ ?w1]) (simp add: sweep_effects_def)
  next
    case None
    show ?thesis
    proof (cases "?v \<le> 0")
      case True
      with None have "scroll_up host l c (Suc n) cur w = (None, ?w1)" by (simp add: Let_def)
      then show ?thesis
        using tr nw by (intro exI [of _ 1] exI [of _ None] exI [of _ ?w1]) (simp add: sweep_effects_def)
    next
      case False
      from Suc.IH [of ?v ?w1] obtain m r w2 where
        ih: "m \<le> n" "scroll_up host l c n ?v ?w1 = (r, w2)"
          "trace w2 = trace ?w1 @ sweep_effects c (up_offsets ?v m)"
          "now w2 = now ?w1 + 300 * int m"
          "r \<noteq> None \<longrightarrow> ctFindCheckboxByLabel (tree (pg w2)) l = r"
          "(\<forall>t p. ctFindCheckboxByLabel (tree (host t p)) l = None) \<longrightarrow> r = None"
        by blast
      from None False ih(2) have "scroll_up host l c (Suc n) cur w = (r, w2)" by (simp add: Let_def)
      then show ?thesis
        using ih tr nw
        by (intro exI [of _ "Suc m"] exI [of _ r] exI [of _ w2]) (simp add: sweep_effects_def)
    qed
  qed
qed


subsection \<open>The locator, the collector and the load gate, for any host\<close>

lemma rounds_result:
  "\<exists>r w1 k. find_section_rounds host n w = (r, w1) \<and> k \<le> n
     \<and> trace w1 = trace w @ replicate k (Sleep 500) \<and> now w1 = now w + 500 * int k
     \<and> (pg w1 = pg w \<or> (\<exists>t q. pg w1 = host t q))
     \<and> (r = Inr None \<or> (\<exists>s. r = Inr (Some s) \<and> find_section_round (tree (pg w1)) = Inr (Some s)))"
proof (induction n arbitrary: w)
  case 0
  show ?case by (intro exI [of _ "Inr None"] exI [of _ w] exI [of _ 0]) simp
next
  case (Suc n)
  show ?case
  proof (cases "find_section_round (tree (pg w))")
    case (Inl e)
    then show ?thesis using find_section_round_no_error by blast
  next
    case (Inr found)
    show ?thesis
    proof (cases found)
      case (Some s)
      with Inr show ?thesis
        by (intro exI [of _ "Inr (Some s)"] exI [of _ w] exI [of _ 0]) simp
    next
      case None
      let ?w0 = "ctSleep host 500 w"
      from Suc.IH [of ?w0] obtain r w1 k where
        ih: "find_section_rounds host n ?w0 = (r, w1)" "k \<le> n"
          "trace w1 = trace ?w0 @ replicate k (Sleep 500)" "now w1 = now ?w0 + 500 * int k"
          "pg w1 = pg ?w0 \<or> (\<exists>t q. pg w1 = host t q)"
          "r = Inr None \<or> (\<exists>s. r = Inr (Some s) \<and> find_section_round (tree (pg w1)) = Inr (Some s))"
        by blast
      have "pg ?w0 = host (now w + 500) (pg w)" by (simp add: ctSleep_def)
      with ih(5) have reach: "\<exists>t q. pg w1 = host t q" by metis
      have "trace w1 = trace w @ replicate (Suc k) (Sleep 500)"
        using ih(3) by (simp add: ctSleep_def)
      moreover have "now w1 = now w + 500 * int (Suc k)"
        using ih(4) by (simp add: ctSleep_def)
      moreover have "find_section_rounds host (Suc n) w = (r, w1)"
        using Inr None ih(1) by simp
      ultimately show ?thesis
        using ih(2) ih(6) reach
        by (intro exI [of _ r] exI [of _ w1] exI [of _ "Suc k"]) simp
    qed
  qed
qed

lemma section_result:
  "\<exists>r w1 k. ctFindCalendarSection host w = (r, w1) \<and> k \<le> 10
     \<and> trace w1 = trace w @ replicate k (Sleep 500) \<and> now w1 = now w + 500 * int k
     \<and> (pg w1 = pg w \<or> (\<exists>t q. pg w1 = host t q))
     \<and> (r = Inr None \<or> (\<exists>s. r = Inr (Some s) \<and> find_section_round (tree (pg w1)) = Inr (Some s)))"
  unfolding ctFindCalendarSection_def by (rule rounds_result)

lemma checkboxes_result:
  "\<exists>hs w1 k. ctGetCalendarCheckboxes host w = (Inr hs, w1) \<and> k \<le> 10
     \<and> trace w1 = trace w @ replicate k (Sleep 500) \<and> now w1 = now w + 500 * int k
     \<and> (pg w1 = pg w \<or> (\<exists>t q. pg w1 = host t q))
     \<and> (hs = [] \<or> hs = snapshot (pg w1))"
proof -
  from section_result [of host w] obtain r w1 k where
    s: "ctFindCalendarSection host w = (r, w1)" "k \<le> 10"
      "trace w1 = trace w @ replicate k (Sleep 500)" "now w1 = now w + 500 * int k"
      "pg w1 = pg w \<or> (\<exists>t q. pg w1 = host t q)"
      "r = Inr None \<or> (\<exists>s. r = Inr (Some s) \<and> find_section_round (tree (pg w1)) = Inr (Some s))"
    by blast
  from s(6) show ?thesis
  proof
    assume "r = Inr None"
    with s have "ctGetCalendarCheckboxes host w = (Inr [], w1)"
      by (simp add: ctGetCalendarCheckboxes_def)
    with s show ?thesis by (intro exI [of _ "[]"] exI [of _ w1] exI [of _ k]) simp
  next
    assume "\<exists>s. r = Inr (Some s) \<and> find_section_round (tree (pg w1)) = Inr (Some s)"
    then obtain sec where r: "r = Inr (Some sec)" "find_section_round (tree (pg w1)) = Inr (Some sec)"
      by blast
    with s have "ctGetCalendarCheckboxes host w = (Inr (snapshot (pg w1)), w1)"
      by (simp add: ctGetCalendarCheckboxes_def snapshot_def labelled_toggles_def collect_checkboxes_eq)
    with s show ?thesis by (intro exI [of _ "snapshot (pg w1)"] exI [of _ w1] exI [of _ k]) simp
  qed
qed

lemma sleeps_append: "sleeps host (a @ b) w = sleeps host b (sleeps host a w)"
  by (induction a arbitrary: w) simp_all

lemma now_sleeps: "now (sleeps host ms w) = now w + sum_list ms"
  by (induction ms arbitrary: w) (simp_all add: ctSleep_def)

lemma trace_sleeps: "trace (sleeps host ms w) = trace w @ map Sleep ms"
  by (induction ms arbitrary: w) (simp_all add: ctSleep_def)

lemma pg_sleeps: "pg (sleeps host ms w) = pg w \<or> (\<exists>t q. pg (sleeps host ms w) = host t q)"
proof (induction ms arbitrary: w)
  case Nil
  then show ?case by simp
next
  case (Cons a ms)
  have "pg (ctSleep host a w) = host (now w + a) (pg w)" by (simp add: ctSleep_def)
  with Cons [of "ctSleep host a w"] show ?case by (simp) metis
qed

lemma rounds_schedule:
  "\<exists>k r. k \<le> n \<and> find_section_rounds host n w = (Inr r, sleeps host (replicate k 500) w)
     \<and> (\<forall>j<k. no_section (sleeps host (replicate j 500) w))
     \<and> (k < n \<longrightarrow> r \<noteq> None \<and> find_section_round (tree (pg (sleeps host (replicate k 500) w))) = Inr r)
     \<and> (k = n \<longrightarrow> r = None)"
proof (induction n arbitrary: w)
  case 0
  then show ?case by simp
next
  case (Suc n)
  show ?case
  proof (cases "find_section_round (tree (pg w))")
    case (Inl e)
    then show ?thesis using find_section_round_no_error by blast
  next
    case (Inr found)
    show ?thesis
    proof (cases found)
      case (Some s)
      with Inr show ?thesis by (intro exI [of _ 0] exI [of _ "Some s"]) simp
    next
      case None
      let ?w0 = "ctSleep host 500 w"
      from Suc.IH [of ?w0] obtain k r where
        ih: "k \<le> n"
          "find_section_rounds host n ?w0 = (Inr r, sleeps host (replicate k 500) ?w0)"
          "\<forall>j<k. no_section (sleeps host (replicate j 500) ?w0)"
          "k < n \<longrightarrow> r \<noteq> None \<and> find_section_round (tree (pg (sleeps host (replicate k 500) ?w0))) = Inr r"
          "k = n \<longrightarrow> r = None"
        by blast
      have first: "no_section w" using Inr None by (simp add: no_section_def)
      have all: "\<forall>j<Suc k. no_section (sleeps host (replicate j 500) w)"
      proof (intro allI impI)
        fix j assume "j < Suc k"
        show "no_section (sleeps host (replicate j 500) w)"
        proof (cases j)
          case 0
          with first show ?thesis by simp
        next
          case (Suc i)
          with \<open>j < Suc k\<close> ih(3) show ?thesis by simp
        qed
      qed
      from Inr None ih(1,2,4,5) all show ?thesis
        by (intro exI [of _ "Suc k"] exI [of _ r]) simp
    qed
  qed
qed

lemma snapshot_sleeps:
  assumes "\<forall>t q. snapshot (host t q) = []" and "snapshot (pg w) = []"
  shows "snapshot (pg (sleeps host ms w)) = []"
  using pg_sleeps [of host ms w] assms by auto

lemma wait_loop_schedule:
  assumes "\<forall>t q. snapshot (host t q) = []" and "snapshot (pg w) = []"
  shows "\<exists>ks. polled host start ks w
     \<and> wait_loop host start w =
         (Inl (Timeout (length (doc_querySelectorAll
                  (tree (pg (sleeps host (concat (map poll_sleeps ks)) w))) CT_CHECKBOX_SELECTOR))),
          sleeps host (concat (map poll_sleeps ks)) w)"
  using assms
proof (induction host start w rule: wait_loop.induct)
  case (1 host start w)
  note nd = "1.prems"(1) and init = "1.prems"(2)
  show ?case
  proof (cases "now w - start < 30000")
    case False
    then have "wait_loop host start w =
        (Inl (Timeout (length (doc_querySelectorAll (tree (pg w)) CT_CHECKBOX_SELECTOR))), w)"
      by (subst wait_loop.simps) simp
    with False show ?thesis by (intro exI [of _ "[]"]) simp
  next
    case True
    from rounds_schedule [of 10 host w] obtain k r where
      s: "k \<le> 10" "find_section_rounds host 10 w = (Inr r, sleeps host (replicate k 500) w)"
        "\<forall>j<k. no_section (sleeps host (replicate j 500) w)"
        "k < 10 \<longrightarrow> r \<noteq> None \<and> find_section_round (tree (pg (sleeps host (replicate k 500) w))) = Inr r"
        "k = 10 \<longrightarrow> r = None"
      by blast
    let ?w1 = "sleeps host (replicate k 500) w"
    let ?w2 = "ctSleep host 1000 ?w1"
    have loc: "ctFindCalendarSection host w = (Inr r, ?w1)"
      using s(2) by (simp add: ctFindCalendarSection_def)
    have w2: "?w2 = sleeps host (poll_sleeps k) w"
      by (simp add: poll_sleeps_def sleeps_append)
    have snap1: "snapshot (pg ?w1) = []" using nd init by (rule snapshot_sleeps)
    have snap2: "snapshot (pg ?w2) = []" using nd by (simp add: ctSleep_def)
    have step: "wait_loop host start w = wait_loop host start ?w2"
    proof (cases r)
      case None
      with True loc show ?thesis by (subst wait_loop.simps) simp
    next
      case (Some sec)
      with s(1,4,5) have found: "find_section_round (tree (pg ?w1)) = Inr (Some sec)"
        by (cases "k = 10") auto
      then have "find_section_rounds host 10 ?w1 = (Inr (Some sec), ?w1)"
        by (simp add: numeral_eq_Suc)
      then have "ctGetCalendarCheckboxes host ?w1 = (Inr (snapshot (pg ?w1)), ?w1)"
        using found
        by (simp add: ctGetCalendarCheckboxes_def ctFindCalendarSection_def snapshot_def
              labelled_toggles_def collect_checkboxes_eq)
      with snap1 have "ctGetCalendarCheckboxes host ?w1 = (Inr [], ?w1)" by simp
      with True loc Some show ?thesis by (subst wait_loop.simps) simp
    qed
    have ih: "\<exists>ks. polled host start ks ?w2
       \<and> wait_loop host start ?w2 =
         (Inl (Timeout (length (doc_querySelectorAll
                  (tree (pg (sleeps host (concat (map poll_sleeps ks)) ?w2))) CT_CHECKBOX_SELECTOR))),
          sleeps host (concat (map poll_sleeps ks)) ?w2)"
    proof (cases r)
      case None
      from "1.IH"(1) [OF True loc [symmetric] refl None nd snap2] show ?thesis .
    next
      case (Some sec)
      with s(1,4,5) have found: "find_section_round (tree (pg ?w1)) = Inr (Some sec)"
        by (cases "k = 10") auto
      then have "find_section_rounds host 10 ?w1 = (Inr (Some sec), ?w1)"
        by (simp add: numeral_eq_Suc)
      then have "ctGetCalendarCheckboxes host ?w1 = (Inr (snapshot (pg ?w1)), ?w1)"
        using found
        by (simp add: ctGetCalendarCheckboxes_def ctFindCalendarSection_def snapshot_def
              labelled_toggles_def collect_checkboxes_eq)
      with snap1 have c: "ctGetCalendarCheckboxes host ?w1 = (Inr [], ?w1)" by simp
      have notready: "\<not> 0 < length ([] :: CalendarCheckbox list)" by simp
      from "1.IH"(2) [OF True loc [symmetric] refl Some c [symmetric] refl notready nd snap2]
      show ?thesis .
    qed
    then obtain ks where
      r: "polled host start ks ?w2"
        "wait_loop host start ?w2 =
         (Inl (Timeout (length (doc_querySelectorAll
                  (tree (pg (sleeps host (concat (map poll_sleeps ks)) ?w2))) CT_CHECKBOX_SELECTOR))),
          sleeps host (concat (map poll_sleeps ks)) ?w2)"
      by blast
    have sec: "k < 10 \<longrightarrow> \<not> no_section ?w1"
      using s(4) by (auto simp: no_section_def)
    have "polled host start (k # ks) w"
      using True s(1,3) sec r(1) by (simp add: w2 list_all_iff)
    moreover have "sleeps host (concat (map poll_sleeps (k # ks))) w
        = sleeps host (concat (map poll_sleeps ks)) ?w2"
      by (simp add: sleeps_append w2)
    ultimately show ?thesis using step r(2) by (intro exI [of _ "k # ks"]) simp
  qed
qed

lemma polled_unique:
  "polled host start ks w \<Longrightarrow> polled host start ks' w \<Longrightarrow> ks' = ks"
proof (induction ks arbitrary: ks' w)
  case Nil
  then show ?case by (cases ks') simp_all
next
  case (Cons k ks)
  from Cons.prems obtain k' ks1 where ks': "ks' = k' # ks1" by (cases ks') auto
  from Cons.prems(1) have a: "k \<le> 10" "\<forall>j<k. no_section (sleeps host (replicate j 500) w)"
    "k < 10 \<longrightarrow> \<not> no_section (sleeps host (replicate k 500) w)"
    "polled host start ks (sleeps host (poll_sleeps k) w)"
    by (simp_all add: list_all_iff)
  from Cons.prems(2) ks' have b: "k' \<le> 10" "\<forall>j<k'. no_section (sleeps host (replicate j 500) w)"
    "k' < 10 \<longrightarrow> \<not> no_section (sleeps host (replicate k' 500) w)"
    "polled host start ks1 (sleeps host (poll_sleeps k') w)"
    by (simp_all add: list_all_iff)
  have "k' = k"
  proof (rule ccontr)
    assume "k' \<noteq> k"
    then consider "k' < k" | "k < k'" by linarith
    then show False
    proof cases
      case 1
      with a(1,2) b(3) show False by auto
    next
      case 2
      with b(1,2) a(3) show False by auto
    qed
  qed
  with a(4) b(4) Cons.IH [of "sleeps host (poll_sleeps k) w" ks1] ks' show ?case by simp
qed

lemma sum_poll_sleeps: "sum_list (poll_sleeps k) = 500 * int k + 1000"
  by (induction k) (simp_all add: poll_sleeps_def)

lemma polled_bounds:
  "polled host start ks w \<Longrightarrow> now w - start < 30000 \<Longrightarrow>
     ks \<noteq> [] \<and> 30000 \<le> now (sleeps host (concat (map poll_sleeps ks)) w) - start
     \<and> now (sleeps host (concat (map poll_sleeps ks)) w) - start < 36000"
proof (induction ks arbitrary: w)
  case Nil
  then show ?case by simp
next
  case (Cons k ks)
  let ?w2 = "sleeps host (poll_sleeps k) w"
  from Cons.prems have k: "k \<le> 10" and rest: "polled host start ks ?w2" by simp_all
  have n2: "now ?w2 = now w + 500 * int k + 1000" by (simp add: now_sleeps sum_poll_sleeps)
  have app: "sleeps host (concat (map poll_sleeps (k # ks))) w = sleeps host (concat (map poll_sleeps ks)) ?w2"
    by (simp add: sleeps_append)
  show ?case
  proof (cases "now ?w2 - start < 30000")
    case True
    from Cons.IH [OF rest True] show ?thesis unfolding app by simp
  next
    case False
    with rest have "ks = []" by (cases ks) simp_all
    with False n2 k Cons.prems(2) show ?thesis unfolding app by simp
  qed
qed

lemma poll_trace: "map Sleep (concat (map poll_sleeps ks)) = concat (map poll_effects ks)"
  by (induction ks) (simp_all add: poll_sleeps_def poll_effects_def)

lemma no_section_sleeps:
  assumes "\<forall>t q. find_section_round (tree (host t q)) = Inr None" and "no_section w"
  shows "no_section (sleeps host ms w)"
  using pg_sleeps [of host ms w] assms by (auto simp: no_section_def)

lemma polled_never_located:
  assumes "\<forall>t q. find_section_round (tree (host t q)) = Inr None" and "no_section w"
  shows "polled host (now w) [10, 10, 10, 10, 10] w"
proof -
  have ns: "no_section (sleeps host ms v)" if "no_section v" for ms v
    using assms(1) that by (rule no_section_sleeps)
  have step: "polled host s (10 # ks) v"
    if "now v - s < 30000" "no_section v" "polled host s ks (sleeps host (poll_sleeps 10) v)" for s ks v
    using that ns [OF that(2)] by (simp add: list_all_iff)
  let ?p = "poll_sleeps 10"
  let ?w1 = "sleeps host ?p w"
  let ?w2 = "sleeps host ?p ?w1"
  let ?w3 = "sleeps host ?p ?w2"
  let ?w4 = "sleeps host ?p ?w3"
  let ?w5 = "sleeps host ?p ?w4"
  have n: "no_section ?w1" "no_section ?w2" "no_section ?w3" "no_section ?w4"
    using assms(2) by (simp_all add: ns)
  have t: "now ?w1 = now w + 6000" "now ?w2 = now w + 12000" "now ?w3 = now w + 18000"
    "now ?w4 = now w + 24000" "now ?w5 = now w + 30000"
    by (simp_all add: now_sleeps sum_poll_sleeps)
  have p5: "polled host (now w) [] ?w5" using t by simp
  have p4: "polled host (now w) [10] ?w4" by (rule step [OF _ n(4) p5]) (simp add: t)
  have p3: "polled host (now w) [10, 10] ?w3" by (rule step [OF _ n(3) p4]) (simp add: t)
  have p2: "polled host (now w) [10, 10, 10] ?w2" by (rule step [OF _ n(2) p3]) (simp add: t)
  have p1: "polled host (now w) [10, 10, 10, 10] ?w1" by (rule step [OF _ n(1) p2]) (simp add: t)
  show ?thesis by (rule step [OF _ assms(2) p1]) simp
qed

lemma sleeps_rerender:
  "sleeps (rerender_host d) ms w =
     \<lparr>pg = (if ms = [] then pg w else (pg w)\<lparr>tree := d\<rparr>), now = now w + sum_list ms,
      trace = trace w @ map Sleep ms\<rparr>"
proof (induction ms arbitrary: w)
  case Nil
  then show ?case by simp
next
  case (Cons a ms)
  show ?case
    unfolding sleeps.simps Cons.IH
    by (simp add: ctSleep_def rerender_host_def)
qed


subsection \<open>What the scroll search returns\<close>





subsection \<open>The activations of the reconciler, for any host\<close>

lemma no_clicks_replicate_sleep: "no_clicks (replicate k (Sleep ms))"
  by (induction k) simp_all

lemma no_clicks_sweep: "no_clicks (sweep_effects c vs)"
  by (induction vs) (simp_all add: sweep_effects_def)

lemma find_and_scroll_trace:
  "\<exists>r w1 es. ctFindAndScrollToCheckbox host l w = (Inr r, w1) \<and> trace w1 = trace w @ es \<and> no_clicks es"
proof (cases "ctFindCheckboxByLabel (tree (pg w)) l")
  case (Some p)
  then show ?thesis by (simp add: ctFindAndScrollToCheckbox_def)
next
  case None
  show ?thesis
  proof (cases "ctFindDrawerScrollContainer (tree (pg w))")
    case (Inl e)
    then show ?thesis using drawer_no_error by blast
  next
    case (Inr found)
    show ?thesis
    proof (cases found)
      case nodrawer: None
      with Inr None show ?thesis by (simp add: ctFindAndScrollToCheckbox_def)
    next
      case (Some c)
      from scroll_down_effects [of 10 host l c "scrollTop (pg w) c" w] obtain m r w1 where
        d: "scroll_down host l c 10 (scrollTop (pg w) c) w = (r, w1)"
          "trace w1 = trace w @ sweep_effects c (down_offsets (scrollTop (pg w) c) m)" by blast
      from scroll_up_effects [of 10 host l c "scrollTop (pg w1) c" w1] obtain m' r' w2 where
        u: "scroll_up host l c 10 (scrollTop (pg w1) c) w1 = (r', w2)"
          "trace w2 = trace w1 @ sweep_effects c (up_offsets (scrollTop (pg w1) c) m')" by blast
      show ?thesis
      proof (cases r)
        case (Some p)
        with Inr \<open>found = Some c\<close> None d show ?thesis
          by (simp add: ctFindAndScrollToCheckbox_def no_clicks_sweep)
      next
        case down_none: None
        with Inr \<open>found = Some c\<close> None d u show ?thesis
          by (simp add: ctFindAndScrollToCheckbox_def no_clicks_sweep)
      qed
    qed
  qed
qed

lemma apply_initial_trace:
  "\<exists>P' w' es. apply_initial cals False hs P w = (P', w') \<and> trace w' = trace w @ es \<and> only_checks es"
proof (induction hs arbitrary: P w)
  case Nil
  then show ?case by simp
next
  case (Cons h hs)
  define w1 where "w1 = (if label h \<in> set cals \<and> \<not> checked h then ctToggleCheckbox (element h) True w else w)"
  have t: "\<exists>es. trace w1 = trace w @ es \<and> only_checks es"
    by (simp add: w1_def toggle_simps)
  then obtain es where es: "trace w1 = trace w @ es" "only_checks es" by blast
  from Cons.IH [of "insert (label h) P" w1] obtain P' w' fs where
    r: "apply_initial cals False hs (insert (label h) P) w1 = (P', w')"
      "trace w' = trace w1 @ fs" "only_checks fs" by blast
  have "apply_initial cals False (h # hs) P w = apply_initial cals False hs (insert (label h) P) w1"
    by (simp add: w1_def Let_def)
  with r(1) have "apply_initial cals False (h # hs) P w = (P', w')" by simp
  moreover have "trace w' = trace w @ (es @ fs)" using es r by simp
  ultimately show ?case using es r by (intro exI [of _ P'] exI [of _ w'] exI [of _ "es @ fs"]) simp
qed

lemma apply_unprocessed_trace:
  "\<exists>P' w' es. apply_unprocessed host cs P w = (P', w') \<and> trace w' = trace w @ es \<and> only_checks es"
proof (induction cs arbitrary: P w)
  case Nil
  then show ?case by simp
next
  case (Cons c cs)
  from find_and_scroll_trace [of host c w] obtain r w1 es where
    f: "ctFindAndScrollToCheckbox host c w = (Inr r, w1)" "trace w1 = trace w @ es" "no_clicks es"
    by blast
  show ?case
  proof (cases r)
    case None
    from Cons.IH [of P w1] obtain P' w' fs where
      r: "apply_unprocessed host cs P w1 = (P', w')" "trace w' = trace w1 @ fs" "only_checks fs"
      by blast
    have "apply_unprocessed host (c # cs) P w = (P', w')" using f(1) None r(1) by simp
    moreover have "trace w' = trace w @ (es @ fs)" using f r by simp
    ultimately show ?thesis
      using f r by (intro exI [of _ P'] exI [of _ w'] exI [of _ "es @ fs"]) (simp add: no_clicks_only_checks)
  next
    case (Some p)
    define w2 where "w2 = (if \<not> checkedness (pg w1) p then ctToggleCheckbox p True w1 else w1)"
    have "\<exists>ms. trace w2 = trace w1 @ ms \<and> only_checks ms"
      by (simp add: w2_def toggle_simps)
    then obtain ms where ms: "trace w2 = trace w1 @ ms" "only_checks ms" by blast
    from Cons.IH [of "insert c P" w2] obtain P' w' fs where
      r: "apply_unprocessed host cs (insert c P) w2 = (P', w')" "trace w' = trace w2 @ fs" "only_checks fs"
      by blast
    have "apply_unprocessed host (c # cs) P w = (P', w')" using f(1) Some r(1) by (simp add: w2_def)
    moreover have "trace w' = trace w @ (es @ ms @ fs)" using f ms r by simp
    ultimately show ?thesis
      using f ms r
      by (intro exI [of _ P'] exI [of _ w'] exI [of _ "es @ ms @ fs"]) (simp add: no_clicks_only_checks)
  qed
qed

lemma apply_false_trace:
  "\<exists>w' es. ctApplyCalendarGroup host grp False w = (Inr (), w') \<and> trace w' = trace w @ es \<and> only_checks es"
proof -
  from checkboxes_result [of host w] obtain hs w1 k where
    c: "ctGetCalendarCheckboxes host w = (Inr hs, w1)" "trace w1 = trace w @ replicate k (Sleep 500)"
    by blast
  have oc0: "only_checks (replicate k (Sleep 500))"
    by (simp add: no_clicks_only_checks no_clicks_replicate_sleep)
  show ?thesis
  proof (cases "hs = []")
    case True
    with c oc0 show ?thesis by (simp add: ctApplyCalendarGroup_def)
  next
    case False
    from apply_initial_trace [of "calendars grp" hs "{}" w1] obtain P' w2 es where
      p1: "apply_initial (calendars grp) False hs {} w1 = (P', w2)" "trace w2 = trace w1 @ es"
        "only_checks es" by blast
    let ?cs = "filter (\<lambda>calendar. calendar \<notin> P') (calendars grp)"
    from apply_unprocessed_trace [of host ?cs P' w2] obtain P'' w3 fs where
      p2: "apply_unprocessed host ?cs P' w2 = (P'', w3)" "trace w3 = trace w2 @ fs" "only_checks fs"
      by blast
    show ?thesis
    proof (cases "?cs = []")
      case True
      with c False p1 oc0 show ?thesis
        by (simp add: ctApplyCalendarGroup_def)
    next
      case nonempty: False
      with c \<open>hs \<noteq> []\<close> p1 p2 have "ctApplyCalendarGroup host grp False w = (Inr (), w3)"
        by (simp add: ctApplyCalendarGroup_def)
      moreover have "trace w3 = trace w @ (replicate k (Sleep 500) @ es @ fs)"
        using c p1 p2 by simp
      ultimately show ?thesis using oc0 p1 p2
        by (intro exI [of _ w3] exI [of _ "replicate k (Sleep 500) @ es @ fs"]) simp
    qed
  qed
qed


subsection \<open>The reconciler on a page that keeps the checked states\<close>









text \<open>
  On a page that does not change, the second pass finds what the direct lookup yields for
  each of its labels.
\<close>

lemma scroll_finds_static:
  "scroll_finds static_host cs w =
     map (\<lambda>c. (c, the (ctFindCheckboxByLabel (tree (pg w)) c),
                is_disabled (tree (pg w)) (the (ctFindCheckboxByLabel (tree (pg w)) c))))
       (filter (\<lambda>c. ctFindCheckboxByLabel (tree (pg w)) c \<noteq> None) cs)"
proof (induction cs arbitrary: w)
  case Nil
  then show ?case by simp
next
  case (Cons c cs)
  from find_and_scroll_static [of c w] obtain w1 where
    f: "ctFindAndScrollToCheckbox static_host c w = (Inr (ctFindCheckboxByLabel (tree (pg w)) c), w1)"
      "tree (pg w1) = tree (pg w)" by blast
  show ?case
  proof (cases "ctFindCheckboxByLabel (tree (pg w)) c")
    case None
    with f Cons.IH [of w1] show ?thesis by simp
  next
    case (Some q)
    define w2 where "w2 = (if \<not> checkedness (pg w1) q then ctToggleCheckbox q True w1 else w1)"
    have "tree (pg w2) = tree (pg w)" using f(2) by (simp add: w2_def toggle_simps)
    with Some f Cons.IH [of w2] show ?thesis by (simp add: w2_def)
  qed
qed


subsection \<open>Running the reconciler twice\<close>

text \<open>
  On a page that does not change and has no disabled control, a second run performs no
  activation, provided that (when others are disabled) no collected label agrees with a
  group entry only after trimming.
\<close>

lemma apply_twice_static:
  fixes grp :: CalendarGroup and w :: world and d :: bool
  defines "hs \<equiv> snapshot (pg w)"
  defines "w1 \<equiv> snd (ctApplyCalendarGroup static_host grp d w)"
  defines "w2 \<equiv> snd (ctApplyCalendarGroup static_host grp d w1)"
  assumes H: "d \<longrightarrow> (\<forall>h\<in>set hs. \<forall>c\<in>set (calendars grp). js_trim (label h) = js_trim c \<longrightarrow> label h = c)"
    and E: "\<forall>q. \<not> is_disabled (tree (pg w)) q"
  shows "\<exists>es. trace w2 = trace w1 @ es \<and> no_clicks es"
proof -
  define cs where "cs = filter (\<lambda>c. c \<notin> label ` set hs) (calendars grp)"
  from apply_static [of grp d w, folded hs_def, folded cs_def] obtain v es where
    a: "ctApplyCalendarGroup static_host grp d w = (Inr (), v)"
      "tree (pg v) = tree (pg w)"
      "hs \<noteq> [] \<longrightarrow>
          (\<forall>h\<in>set hs. checkedness (pg v) (element h) =
              (settled (tree (pg w)) (calendars grp) d h
                \<or> (\<exists>c\<in>set cs. ctFindCheckboxByLabel (tree (pg w)) c = Some (element h)
                       \<and> \<not> is_disabled (tree (pg w)) (element h))))
        \<and> (\<forall>q. q \<notin> element ` set hs \<longrightarrow> checkedness (pg v) q =
              (checkedness (pg w) q
                \<or> (\<exists>c\<in>set cs. ctFindCheckboxByLabel (tree (pg w)) c = Some q \<and> \<not> is_disabled (tree (pg w)) q)))"
    by blast
  have v: "w1 = v" using a(1) by (simp add: w1_def)
  define hs1 where "hs1 = snapshot (pg w1)"
  have snap: "hs1 = map (\<lambda>h. h\<lparr>checked := checkedness (pg w1) (element h)\<rparr>) hs"
    unfolding hs1_def hs_def using a(2) v by (intro snapshot_same_tree) simp
  have labels: "label ` set hs1 = label ` set hs" unfolding snap by (simp add: image_comp comp_def)
  have cs1: "filter (\<lambda>c. c \<notin> label ` set hs1) (calendars grp) = cs" by (simp add: labels cs_def)
  from apply_static [of grp d w1, folded hs1_def, unfolded cs1] obtain v2 fs where
    b: "ctApplyCalendarGroup static_host grp d w1 = (Inr (), v2)"
      "hs1 = [] \<longrightarrow> checkedness (pg v2) = checkedness (pg w1) \<and> no_clicks fs"
      "trace v2 = trace w1 @ fs"
      "(\<forall>h\<in>set hs1. checked h = target (calendars grp) d h)
          \<and> (\<forall>c\<in>set cs. \<forall>q. ctFindCheckboxByLabel (tree (pg w1)) c = Some q \<longrightarrow> checkedness (pg w1) q)
          \<longrightarrow> no_clicks fs"
    by blast
  have v2: "w2 = v2" using b(1) by (simp add: w2_def)
  have "no_clicks fs"
  proof (cases "hs = []")
    case True
    then have "hs1 = []" by (simp add: snap)
    with b(2) show ?thesis by simp
  next
    case False
    have fin: "checkedness (pg w1) (element h) =
              (target (calendars grp) d h \<or> (\<exists>c\<in>set cs. ctFindCheckboxByLabel (tree (pg w)) c = Some (element h)))"
      if "h \<in> set hs" for h using a(3) False that v E by (simp add: settled_def)
    have in_cs: "c \<in> set cs \<longleftrightarrow> c \<in> set (calendars grp) \<and> c \<notin> label ` set hs" for c
      by (simp add: cs_def)
    have at: "\<forall>h1\<in>set hs1. checked h1 = target (calendars grp) d h1"
    proof
      fix h1 assume "h1 \<in> set hs1"
      then obtain h where h: "h \<in> set hs" "h1 = h\<lparr>checked := checkedness (pg w1) (element h)\<rparr>"
        unfolding snap by auto
      show "checked h1 = target (calendars grp) d h1"
      proof (cases d)
        case False
        with fin [OF h(1)] h(2) show ?thesis by (auto simp: target_def)
      next
        case True
        have "\<not> (\<exists>c\<in>set cs. ctFindCheckboxByLabel (tree (pg w)) c = Some (element h))"
        proof
          assume "\<exists>c\<in>set cs. ctFindCheckboxByLabel (tree (pg w)) c = Some (element h)"
          then obtain c where c: "c \<in> set (calendars grp)" "c \<notin> label ` set hs"
            "ctFindCheckboxByLabel (tree (pg w)) c = Some (element h)" using in_cs by blast
          from ctFindCheckboxByLabel_sound [OF c(3)] obtain l where
            l: "ctGetCalendarLabel (tree (pg w)) (element h) = Some l" "js_trim l = js_trim c" by blast
          from snapshot_sound [of h "pg w"] h(1)
          have "ctGetCalendarLabel (tree (pg w)) (element h) = Some (label h)"
            unfolding hs_def by simp
          with l have "js_trim (label h) = js_trim c" by simp
          with H True h(1) c(1) have "label h = c" by blast
          with h(1) c(2) show False by blast
        qed
        with fin [OF h(1)] h(2) True show ?thesis by (simp add: target_def)
      qed
    qed
    have found: "\<forall>c\<in>set cs. \<forall>q. ctFindCheckboxByLabel (tree (pg w1)) c = Some q \<longrightarrow> checkedness (pg w1) q"
    proof (intro ballI allI impI)
      fix c q assume c: "c \<in> set cs" and f: "ctFindCheckboxByLabel (tree (pg w1)) c = Some q"
      then have ex: "\<exists>c\<in>set cs. ctFindCheckboxByLabel (tree (pg w)) c = Some q"
        using a(2) v by auto
      show "checkedness (pg w1) q"
      proof (cases "q \<in> element ` set hs")
        case True
        then obtain h where "h \<in> set hs" "q = element h" by blast
        with fin ex show ?thesis by blast
      next
        case notin: False
        with a(3) False v E have "checkedness (pg w1) q =
              (checkedness (pg w) q \<or> (\<exists>c\<in>set cs. ctFindCheckboxByLabel (tree (pg w)) c = Some q))"
          by simp
        with ex show ?thesis by simp
      qed
    qed
    from b(4) at found show ?thesis by blast
  qed
  with b(3) v2 show ?thesis by blast
qed


section \<open>Evaluation on the example pages\<close>

text \<open>
  One unfolding of each bounded loop at a numeral.
\<close>

lemma rounds_numeral:
  "find_section_rounds host (numeral k) w =
     (case find_section_round (tree (pg w)) of
        Inl e \<Rightarrow> (Inl e, w)
      | Inr (Some section) \<Rightarrow> (Inr (Some section), w)
      | Inr None \<Rightarrow> find_section_rounds host (pred_numeral k) (ctSleep host 500 w))"
  by (simp add: numeral_eq_Suc)

lemma scroll_down_numeral:
  "scroll_down host l c (numeral k) cur w =
     (let w1 = ctSleep host 300 (set_scrollTop c (cur + 200) w) in
      case ctFindCheckboxByLabel (tree (pg w1)) l of
        Some checkbox \<Rightarrow> (Some checkbox, w1)
      | None \<Rightarrow>
          if scrollTop (pg w1) c \<ge> scrollHeight (pg w1) c - clientHeight (pg w1) c
          then (None, w1)
          else scroll_down host l c (pred_numeral k) (cur + 200) w1)"
  by (simp add: numeral_eq_Suc)

lemma scroll_up_numeral:
  "scroll_up host l c (numeral k) cur w =
     (let w1 = ctSleep host 300 (set_scrollTop c (max 0 (cur - 200)) w) in
      case ctFindCheckboxByLabel (tree (pg w1)) l of
        Some checkbox \<Rightarrow> (Some checkbox, w1)
      | None \<Rightarrow>
          if max 0 (cur - 200) \<le> 0 then (None, w1)
          else scroll_up host l c (pred_numeral k) (max 0 (cur - 200)) w1)"
  by (simp add: numeral_eq_Suc)

lemmas dom_defs = getAttribute_def textContent_def descendants_def parentElement_def ancestors_def
  document_body_def matches_at_def doc_querySelectorAll_def doc_querySelector_def querySelectorAll_def
  querySelector_def closest_def getElementById_def js_def js_or_def js_trim_def is_js_space_def
  canonicalize_def ascii_lower_def CT_CALENDAR_SELECTORS_def CT_CHECKBOX_SELECTOR_def
  other_calendars_ja_def calendar_ja_def drawer_ja_def
  label_by_reference_def label_by_aria_label_def label_by_container_def label_by_data_def
  ctGetCalendarLabel_def checkbox_input_def html_page_def

lemmas disabled_defs = is_disabled_def disabled_by_def first_legend_def

lemmas step_defs = ctFindCalendarSection_def ctGetCalendarCheckboxes_def
  ctToggleCheckbox_def click_def set_scrollTop_def ctSleep_def
  ctFindAndScrollToCheckbox_def ctApplyCalendarGroup_def
  page_of_def world_of_def static_host_def rerender_host_def Let_def
  rounds_numeral scroll_down_numeral scroll_up_numeral js_def

lemma label_ts: "ctGetCalendarLabel doc_trailing_space [1, 0, 0] = Some (js ''A '')"
  by (simp add: dom_defs doc_trailing_space_def)

lemma section_ts: "find_section_round doc_trailing_space = Inr (Some [1, 0])"
  by (simp add: dom_defs find_section_round_def doc_trailing_space_def)

lemma boxes_ts: "querySelectorAll doc_trailing_space [1, 0] CT_CHECKBOX_SELECTOR = [[1, 0, 0]]"
  by (simp add: dom_defs doc_trailing_space_def)

lemma all_boxes_ts: "doc_querySelectorAll doc_trailing_space CT_CHECKBOX_SELECTOR = [[1, 0, 0]]"
  by (simp add: dom_defs doc_trailing_space_def)

lemma enabled_ts: "\<not> is_disabled doc_trailing_space [1, 0, 0]"
  by (simp add: dom_defs disabled_defs doc_trailing_space_def)

lemma find_ts: "ctFindCheckboxByLabel doc_trailing_space (js ''A'') = Some [1, 0, 0]"
  using all_boxes_ts label_ts
  by (simp add: ctFindCheckboxByLabel_def js_def js_trim_def is_js_space_def)

lemma label_out_a: "ctGetCalendarLabel doc_outside [1, 0, 0] = Some (js ''A'')"
  by (simp add: dom_defs doc_outside_def)

lemma label_out_b: "ctGetCalendarLabel doc_outside [1, 1] = Some (js ''B'')"
  by (simp add: dom_defs doc_outside_def)


lemma section_out: "find_section_round doc_outside = Inr (Some [1, 0])"
  by (simp add: dom_defs find_section_round_def doc_outside_def)

lemma boxes_out: "querySelectorAll doc_outside [1, 0] CT_CHECKBOX_SELECTOR = [[1, 0, 0]]"
  by (simp add: dom_defs doc_outside_def)



lemma section_bare: "find_section_round doc_bare = Inr None"
  by (simp add: dom_defs find_section_round_def doc_bare_def)









lemma section_empty: "find_section_round doc_empty = Inr None"
  by (simp add: dom_defs find_section_round_def doc_empty_def)

lemma all_boxes_empty: "doc_querySelectorAll doc_empty CT_CHECKBOX_SELECTOR = []"
  by (simp add: dom_defs doc_empty_def)












lemma trailing_space_run:
  assumes "tree (pg w) = doc_trailing_space" and "checkedness (pg w) [1, 0, 0]"
  shows "\<exists>w'. ctApplyCalendarGroup static_host group_a True w = (Inr (), w')
     \<and> tree (pg w') = doc_trailing_space \<and> checkedness (pg w') [1, 0, 0]
     \<and> trace w' = trace w @ [Click [1, 0, 0] False, Click [1, 0, 0] True]"
  using assms label_ts section_ts boxes_ts find_ts enabled_ts
  by (simp add: ctFindCalendarSection_def ctGetCalendarCheckboxes_def
        ctToggleCheckbox_def click_def ctFindAndScrollToCheckbox_def ctApplyCalendarGroup_def
        Let_def rounds_numeral js_def group_a_def)



















lemma all_boxes_bare: "doc_querySelectorAll doc_bare CT_CHECKBOX_SELECTOR = [[1, 0]]"
  by (simp add: dom_defs doc_bare_def)

lemma never_located_run:
  assumes sec: "find_section_round d = Inr None"
  shows "ctWaitForCalendarLoad (rerender_host d) (world_of (page_of d on)) =
     (Inl (Timeout (length (doc_querySelectorAll d CT_CHECKBOX_SELECTOR))),
      \<lparr>pg = page_of d on, now = 30000, trace = concat (map poll_effects [10, 10, 10, 10, 10])\<rparr>)"
proof -
  let ?W = "world_of (page_of d on)"
  let ?host = "rerender_host d"
  have nd: "\<forall>t q. snapshot (?host t q) = []"
    using sec by (simp add: snapshot_def rerender_host_def)
  have init: "snapshot (pg ?W) = []"
    using sec by (simp add: snapshot_def world_of_def page_of_def)
  have ns: "\<forall>t q. find_section_round (tree (?host t q)) = Inr None"
    using sec by (simp add: rerender_host_def)
  have n0: "no_section ?W" using sec by (simp add: no_section_def world_of_def page_of_def)
  from wait_loop_schedule [OF nd init, of "now ?W"] obtain ks where
    r: "polled ?host (now ?W) ks ?W"
      "wait_loop ?host (now ?W) ?W =
         (Inl (Timeout (length (doc_querySelectorAll
                  (tree (pg (sleeps ?host (concat (map poll_sleeps ks)) ?W))) CT_CHECKBOX_SELECTOR))),
          sleeps ?host (concat (map poll_sleeps ks)) ?W)"
    by blast
  from polled_unique [OF r(1) polled_never_located [OF ns n0]] have ks: "ks = [10, 10, 10, 10, 10]"
    by simp
  have fin: "sleeps ?host (concat (map poll_sleeps [10, 10, 10, 10, 10])) ?W =
      \<lparr>pg = page_of d on, now = 30000, trace = concat (map poll_effects [10, 10, 10, 10, 10])\<rparr>"
    unfolding sleeps_rerender poll_trace
    by (simp add: poll_sleeps_def sum_list_replicate world_of_def page_of_def)
  from r(2) show ?thesis unfolding ctWaitForCalendarLoad_def ks fin by (simp add: page_of_def)
qed


section \<open>The claims\<close>


subsection \<open>C1: the state after apply(group, true)\<close>





subsection \<open>C2: a second apply performs no activation\<close>

text \<open>
  C2. The claim fails on the code at this input: the only toggle has the accessible name
  \<open>"A "\<close> (a trailing space) and is checked, the group holds \<open>"A"\<close>, and others are
  disabled. The first pass compares labels exactly and unchecks the toggle; the search of
  the second pass compares trimmed labels, finds the same toggle and checks it again. The
  page is then as before, and the second invocation performs the same two activations.
\<close>

theorem apply_twice_clicks_again:
  "checkedness (pg (world_of (page_of doc_trailing_space [[1, 0, 0]]))) [1, 0, 0]
   \<and> ctGetCalendarLabel doc_trailing_space [1, 0, 0] = Some (js ''A '')
   \<and> calendars group_a = [js ''A'']
   \<and> trace (snd (ctApplyCalendarGroup static_host group_a True
         (snd (ctApplyCalendarGroup static_host group_a True
            (world_of (page_of doc_trailing_space [[1, 0, 0]])))))) =
      trace (snd (ctApplyCalendarGroup static_host group_a True
            (world_of (page_of doc_trailing_space [[1, 0, 0]]))))
        @ [Click [1, 0, 0] False, Click [1, 0, 0] True]"
proof -
  let ?W = "world_of (page_of doc_trailing_space [[1, 0, 0]])"
  have t0: "tree (pg ?W) = doc_trailing_space" and c0: "checkedness (pg ?W) [1, 0, 0]"
    by (simp_all add: world_of_def page_of_def)
  from trailing_space_run [OF t0 c0] obtain w1 where
    r1: "ctApplyCalendarGroup static_host group_a True ?W = (Inr (), w1)"
      "tree (pg w1) = doc_trailing_space" "checkedness (pg w1) [1, 0, 0]" by blast
  from trailing_space_run [OF r1(2) r1(3)] obtain w2 where
    r2: "ctApplyCalendarGroup static_host group_a True w1 = (Inr (), w2)"
      "trace w2 = trace w1 @ [Click [1, 0, 0] False, Click [1, 0, 0] True]" by blast
  from r1(1) r2 c0 label_ts show ?thesis by (simp add: group_a_def)
qed


subsection \<open>C3: apply(group, false) and toggles outside the group\<close>

text \<open>
  C3 as stated does not hold: the toggle labelled \<open>"A "\<close> is not in
  \<open>group.calendars = ["A"]\<close> and is unchecked; \<open>apply(group, false)\<close> checks it, because
  the scroll search matches labels after trimming. Its state after the call differs from
  its state before.
\<close>

theorem apply_false_counterexample:
  "ctGetCalendarLabel doc_trailing_space [1, 0, 0] = Some (js ''A '')
   \<and> js ''A '' \<notin> set (calendars group_a)
   \<and> \<not> checkedness (pg (world_of (page_of doc_trailing_space []))) [1, 0, 0]
   \<and> checkedness (pg (snd (ctApplyCalendarGroup static_host group_a False
         (world_of (page_of doc_trailing_space []))))) [1, 0, 0]"
  using label_ts section_ts boxes_ts find_ts enabled_ts
  by (simp add: step_defs group_a_def)

text \<open>
  C3 (amended). \<open>apply(group, false)\<close> never unchecks a toggle: whatever the host page
  does, every activation it performs is a click on an unchecked toggle, to turn it on; and
  on a page that does not change by itself a toggle that was checked stays checked, and a
  toggle whose label agrees with no group entry, even after trimming, keeps its state.
\<close>

theorem apply_false_never_unchecks:
  fixes host :: host and grp :: CalendarGroup and w :: world
  defines "w' \<equiv> snd (ctApplyCalendarGroup static_host grp False w)"
  shows "(\<exists>es. trace (snd (ctApplyCalendarGroup host grp False w)) = trace w @ es \<and> only_checks es)
     \<and> (checkedness (pg w) q \<longrightarrow> checkedness (pg w') q)
     \<and> ((\<forall>l. ctGetCalendarLabel (tree (pg w)) q = Some l \<longrightarrow> js_trim l \<notin> js_trim ` set (calendars grp))
          \<longrightarrow> checkedness (pg w') q = checkedness (pg w) q)"
proof -
  define hs where "hs = snapshot (pg w)"
  define cs where "cs = filter (\<lambda>c. c \<notin> label ` set hs) (calendars grp)"
  from apply_static [of grp False w, folded hs_def, folded cs_def] obtain w1 es where
    a: "ctApplyCalendarGroup static_host grp False w = (Inr (), w1)"
      "hs = [] \<longrightarrow> checkedness (pg w1) = checkedness (pg w)"
      "hs \<noteq> [] \<longrightarrow>
          (\<forall>h\<in>set hs. checkedness (pg w1) (element h) =
              (settled (tree (pg w)) (calendars grp) False h
                \<or> (\<exists>c\<in>set cs. ctFindCheckboxByLabel (tree (pg w)) c = Some (element h)
                       \<and> \<not> is_disabled (tree (pg w)) (element h))))
        \<and> (\<forall>q. q \<notin> element ` set hs \<longrightarrow> checkedness (pg w1) q =
              (checkedness (pg w) q
                \<or> (\<exists>c\<in>set cs. ctFindCheckboxByLabel (tree (pg w)) c = Some q \<and> \<not> is_disabled (tree (pg w)) q)))"
    by blast
  have w1: "w' = w1" using a(1) by (simp add: w'_def)
  have final: "checkedness (pg w1) q =
      (checkedness (pg w) q
        \<or> (hs \<noteq> [] \<and> \<not> is_disabled (tree (pg w)) q
             \<and> ((\<exists>h\<in>set hs. element h = q \<and> label h \<in> set (calendars grp))
                  \<or> (\<exists>c\<in>set cs. ctFindCheckboxByLabel (tree (pg w)) c = Some q))))"
  proof (cases "hs = []")
    case True
    with a(2) show ?thesis by simp
  next
    case False
    show ?thesis
    proof (cases "q \<in> element ` set hs")
      case True
      then obtain h where h: "h \<in> set hs" "element h = q" by auto
      have uniq: "h' = h" if "h' \<in> set hs" "element h' = q" for h'
        using that h distinct_snapshot [of "pg w"] unfolding hs_def
        by (metis distinct_map inj_on_def)
      have live: "checked h = checkedness (pg w) q"
        using snapshot_sound [of h "pg w"] h unfolding hs_def by simp
      from a(3) False h(1) have "checkedness (pg w1) (element h) =
          (settled (tree (pg w)) (calendars grp) False h
            \<or> (\<exists>c\<in>set cs. ctFindCheckboxByLabel (tree (pg w)) c = Some (element h)
                   \<and> \<not> is_disabled (tree (pg w)) (element h)))"
        by blast
      then have A: "checkedness (pg w1) q =
          (checkedness (pg w) q
            \<or> (\<not> is_disabled (tree (pg w)) q
                 \<and> (label h \<in> set (calendars grp)
                      \<or> (\<exists>c\<in>set cs. ctFindCheckboxByLabel (tree (pg w)) c = Some q))))"
        using h(2) live by (auto simp: target_def settled_def)
      have B: "(\<exists>h'\<in>set hs. element h' = q \<and> label h' \<in> set (calendars grp)) = (label h \<in> set (calendars grp))"
        using uniq h by blast
      show ?thesis unfolding A B using False by blast
    next
      case notin: False
      from a(3) False notin have "checkedness (pg w1) q =
              (checkedness (pg w) q
                \<or> (\<exists>c\<in>set cs. ctFindCheckboxByLabel (tree (pg w)) c = Some q \<and> \<not> is_disabled (tree (pg w)) q))"
        by blast
      moreover have "\<not> (\<exists>h\<in>set hs. element h = q \<and> label h \<in> set (calendars grp))"
        using notin by blast
      ultimately show ?thesis using False by blast
    qed
  qed
  have one: "\<exists>es. trace (snd (ctApplyCalendarGroup host grp False w)) = trace w @ es \<and> only_checks es"
    using apply_false_trace [of host grp w] by auto
  have two: "checkedness (pg w) q \<longrightarrow> checkedness (pg w') q"
    using final w1 by simp
  have three: "checkedness (pg w') q = checkedness (pg w) q"
    if far: "\<forall>l. ctGetCalendarLabel (tree (pg w)) q = Some l \<longrightarrow> js_trim l \<notin> js_trim ` set (calendars grp)"
  proof -
    have "\<not> (\<exists>h\<in>set hs. element h = q \<and> label h \<in> set (calendars grp))"
    proof
      assume "\<exists>h\<in>set hs. element h = q \<and> label h \<in> set (calendars grp)"
      then obtain h where h: "h \<in> set hs" "element h = q" "label h \<in> set (calendars grp)" by blast
      from snapshot_sound [of h "pg w"] h have "ctGetCalendarLabel (tree (pg w)) q = Some (label h)"
        unfolding hs_def by simp
      with far h(3) show False by blast
    qed
    moreover have "\<not> (\<exists>c\<in>set cs. ctFindCheckboxByLabel (tree (pg w)) c = Some q)"
    proof
      assume "\<exists>c\<in>set cs. ctFindCheckboxByLabel (tree (pg w)) c = Some q"
      then obtain c where c: "c \<in> set (calendars grp)" "ctFindCheckboxByLabel (tree (pg w)) c = Some q"
        unfolding cs_def by auto
      from ctFindCheckboxByLabel_sound [OF c(2)] obtain l where
        "ctGetCalendarLabel (tree (pg w)) q = Some l" "js_trim l = js_trim c" by blast
      with far c(1) show False by (metis imageI)
    qed
    ultimately have "checkedness (pg w1) q = checkedness (pg w) q"
      unfolding final by blast
    with w1 show ?thesis by simp
  qed
  from one two three show ?thesis by blast
qed

text \<open>
  The amended C3 at a page where \<open>B\<close> is checked and not in the group.
\<close>

theorem apply_false_never_unchecks_witness:
  "(\<exists>es. trace (snd (ctApplyCalendarGroup static_host group_a False (world_of (page_of doc_outside [[1, 1]]))))
           = trace (world_of (page_of doc_outside [[1, 1]])) @ es \<and> only_checks es)
   \<and> ctGetCalendarLabel (tree (pg (world_of (page_of doc_outside [[1, 1]])))) [1, 1] = Some (js ''B'')
   \<and> js_trim (js ''B'') \<notin> js_trim ` set (calendars group_a)
   \<and> checkedness (pg (world_of (page_of doc_outside [[1, 1]]))) [1, 1]
   \<and> checkedness (pg (snd (ctApplyCalendarGroup static_host group_a False
         (world_of (page_of doc_outside [[1, 1]]))))) [1, 1]"
proof -
  let ?W = "world_of (page_of doc_outside [[1, 1]])"
  have lab: "ctGetCalendarLabel (tree (pg ?W)) [1, 1] = Some (js ''B'')"
    using label_out_b by (simp add: world_of_def page_of_def)
  have far: "js_trim (js ''B'') \<notin> js_trim ` set (calendars group_a)"
    by (simp add: group_a_def js_def js_trim_def is_js_space_def)
  have on: "checkedness (pg ?W) [1, 1]" by (simp add: world_of_def page_of_def)
  from apply_false_never_unchecks [where host = static_host and grp = group_a and w = ?W and q = "[1, 1]"]
    lab far on
  show ?thesis by simp
qed


subsection \<open>C4: the collector\<close>

text \<open>
  C4. \<open>ctGetCalendarCheckboxes\<close> returns the empty list when the locator returns null;
  otherwise it returns, in document order, the checkboxes of the located section whose label
  is not null, each with its label and its checked state; it never raises.
\<close>

theorem collect_refines:
  "ctGetCalendarCheckboxes host w =
     (case ctFindCalendarSection host w of
        (Inr None, w1) \<Rightarrow> (Inr [], w1)
      | (Inr (Some section), w1) \<Rightarrow> (Inr (labelled_toggles (pg w1) section), w1)
      | (Inl e, w1) \<Rightarrow> (Inl e, w1))
   \<and> (\<exists>handles w1. ctGetCalendarCheckboxes host w = (Inr handles, w1))"
  using ctFindCalendarSection_returns [of host w]
  by (auto simp: ctGetCalendarCheckboxes_def labelled_toggles_def collect_checkboxes_eq split: option.splits)

text \<open>
  C4 on a page with one labelled checkbox in the section and one outside it.
\<close>

theorem collect_refines_witness:
  "ctGetCalendarCheckboxes static_host (world_of (page_of doc_outside [[1, 1]])) =
     (Inr [\<lparr>element = [1, 0, 0], label = js ''A'', checked = False\<rparr>],
      world_of (page_of doc_outside [[1, 1]]))"
proof -
  have sec: "ctFindCalendarSection static_host (world_of (page_of doc_outside [[1, 1]])) =
      (Inr (Some [1, 0]), world_of (page_of doc_outside [[1, 1]]))"
    using section_out by (simp add: ctFindCalendarSection_def rounds_numeral world_of_def page_of_def)
  have lt: "labelled_toggles (page_of doc_outside [[1, 1]]) [1, 0] =
      [\<lparr>element = [1, 0, 0], label = js ''A'', checked = False\<rparr>]"
    using boxes_out label_out_a by (simp add: labelled_toggles_def page_of_def)
  from collect_refines [of static_host "world_of (page_of doc_outside [[1, 1]])"] sec lt
  show ?thesis by (simp add: world_of_def)
qed


subsection \<open>C5: the label reference wins over the accessible name\<close>

text \<open>
  C5 as stated does not hold: the checkbox carries both attributes and the referenced
  element exists, but its text is blank; the resolver falls through and returns the
  accessible name.
\<close>

theorem reference_counterexample:
  "getAttribute doc_ref_blank [1, 0, 1] (js ''aria-labelledby'') = Some (js ''x'')
   \<and> getAttribute doc_ref_blank [1, 0, 1] (js ''aria-label'') = Some (js ''Direct'')
   \<and> getElementById doc_ref_blank (js ''x'') = Some [1, 0, 0]
   \<and> js_trim (textContent doc_ref_blank [1, 0, 0]) = []
   \<and> ctGetCalendarLabel doc_ref_blank [1, 0, 1] = Some (js ''Direct'')
   \<and> ctGetCalendarLabel doc_ref_blank [1, 0, 1] \<noteq> Some (js_trim (textContent doc_ref_blank [1, 0, 0]))"
  by (simp add: dom_defs doc_ref_blank_def)

text \<open>
  C5 (amended). When the checkbox has a non-empty \<open>aria-labelledby\<close>, the element with
  that id exists and its trimmed text is not empty, the resolver returns that trimmed text,
  whatever the accessible name of the checkbox is.
\<close>

theorem reference_wins:
  assumes "getAttribute doc checkbox (js ''aria-labelledby'') = Some labelledBy"
    and "labelledBy \<noteq> []"
    and "getElementById doc labelledBy = Some labelElement"
    and "js_trim (textContent doc labelElement) \<noteq> []"
  shows "ctGetCalendarLabel doc checkbox = Some (js_trim (textContent doc labelElement))"
  using assms by (simp add: ctGetCalendarLabel_def label_by_reference_def)

text \<open>
  The amended C5 on a checkbox that carries both attributes.
\<close>

theorem reference_wins_witness:
  "getAttribute doc_ref [1, 0, 1] (js ''aria-labelledby'') = Some (js ''x'')
   \<and> getAttribute doc_ref [1, 0, 1] (js ''aria-label'') = Some (js ''Direct'')
   \<and> getElementById doc_ref (js ''x'') = Some [1, 0, 0]
   \<and> js_trim (textContent doc_ref [1, 0, 0]) = js ''Work''
   \<and> ctGetCalendarLabel doc_ref [1, 0, 1] = Some (js ''Work'')"
proof -
  have a: "getAttribute doc_ref [1, 0, 1] (js ''aria-labelledby'') = Some (js ''x'')"
    and b: "getAttribute doc_ref [1, 0, 1] (js ''aria-label'') = Some (js ''Direct'')"
    and c: "getElementById doc_ref (js ''x'') = Some [1, 0, 0]"
    and d: "js_trim (textContent doc_ref [1, 0, 0]) = js ''Work''"
    and e: "js ''x'' \<noteq> []" and f: "js ''Work'' \<noteq> []"
    by (simp_all add: dom_defs doc_ref_def)
  from reference_wins [OF a e c] d f
  have "ctGetCalendarLabel doc_ref [1, 0, 1] = Some (js ''Work'')" by simp
  with a b c d show ?thesis by simp
qed


subsection \<open>C6: the text of the first label-like element\<close>

text \<open>
  C6 as stated does not hold: the text \<open>"checkbox A"\<close> is not the single word
  \<open>"checkbox"\<close>, yet strategy 3 rejects it (strategy 4 then yields \<open>"A"\<close>).
\<close>

theorem container_text_counterexample:
  "closest doc_text_checkbox [1, 0, 1] [TagIs (js ''div''), TagIs (js ''li''), TagIs (js ''span'')] = Some [1, 0]
   \<and> querySelector doc_text_checkbox [1, 0] [TagIs (js ''label''), TagIs (js ''span''), TagIs (js ''div'')] = Some [1, 0, 0]
   \<and> getAttribute doc_text_checkbox [1, 0, 0] (js ''aria-label'') = None
   \<and> js_trim (textContent doc_text_checkbox [1, 0, 0]) = js ''checkbox A''
   \<and> js ''checkbox A'' \<noteq> js ''checkbox''
   \<and> label_by_container doc_text_checkbox [1, 0, 1] = None
   \<and> ctGetCalendarLabel doc_text_checkbox [1, 0, 1] = Some (js ''A'')"
  by (simp add: dom_defs doc_text_checkbox_def)

text \<open>
  C6 (amended). When the first label-like descendant of the nearest container has no
  truthy accessible name, strategy 3 accepts its trimmed text exactly when that text is not
  empty and does not contain \<open>"checkbox"\<close> as a substring.
\<close>

theorem container_text_rule:
  assumes "closest doc checkbox [TagIs (js ''div''), TagIs (js ''li''), TagIs (js ''span'')] = Some container"
    and "querySelector doc container [TagIs (js ''label''), TagIs (js ''span''), TagIs (js ''div'')] = Some lab"
    and "\<not> truthy (getAttribute doc lab (js ''aria-label''))"
  shows "label_by_container doc checkbox =
          (if js_trim (textContent doc lab) \<noteq> [] \<and> \<not> js_includes (js_trim (textContent doc lab)) (js ''checkbox'')
           then Some (js_trim (textContent doc lab)) else None)"
  using assms by (simp add: label_by_container_def)

text \<open>
  The amended C6 on a text without the word.
\<close>

theorem container_text_rule_witness:
  "closest doc_text_plain [1, 0, 1] [TagIs (js ''div''), TagIs (js ''li''), TagIs (js ''span'')] = Some [1, 0]
   \<and> querySelector doc_text_plain [1, 0] [TagIs (js ''label''), TagIs (js ''span''), TagIs (js ''div'')] = Some [1, 0, 0]
   \<and> \<not> truthy (getAttribute doc_text_plain [1, 0, 0] (js ''aria-label''))
   \<and> label_by_container doc_text_plain [1, 0, 1] = Some (js ''Holidays'')"
proof -
  have a: "closest doc_text_plain [1, 0, 1] [TagIs (js ''div''), TagIs (js ''li''), TagIs (js ''span'')] = Some [1, 0]"
    and b: "querySelector doc_text_plain [1, 0] [TagIs (js ''label''), TagIs (js ''span''), TagIs (js ''div'')] = Some [1, 0, 0]"
    and c: "\<not> truthy (getAttribute doc_text_plain [1, 0, 0] (js ''aria-label''))"
    and d: "js_trim (textContent doc_text_plain [1, 0, 0]) = js ''Holidays''"
    and e: "js ''Holidays'' \<noteq> []" "\<not> js_includes (js ''Holidays'') (js ''checkbox'')"
    by (simp_all add: dom_defs doc_text_plain_def)
  from container_text_rule [OF a b c] d e
  have "label_by_container doc_text_plain [1, 0, 1] = Some (js ''Holidays'')" by simp
  with a b c show ?thesis by simp
qed


subsection \<open>C7: the scroll search terminates\<close>




subsection \<open>C8: the load gate times out\<close>

text \<open>
  C8 as stated does not hold: the gate does not poll at intervals of one second. On a page
  without any checkbox every poll takes the ten retries of the locator, 500 ms each, before
  the interval of 1000 ms: the polls are 6000 ms apart, and the timeout comes after five of
  them.
\<close>

theorem load_gate_counterexample:
  "doc_querySelectorAll doc_empty CT_CHECKBOX_SELECTOR = []
   \<and> ctWaitForCalendarLoad (rerender_host doc_empty) (world_of (page_of doc_empty [])) =
       (Inl (Timeout 0),
        \<lparr>pg = page_of doc_empty [], now = 30000,
         trace = concat (map poll_effects [10, 10, 10, 10, 10])\<rparr>)
   \<and> poll_effects 10 = [Sleep 500, Sleep 500, Sleep 500, Sleep 500, Sleep 500,
                        Sleep 500, Sleep 500, Sleep 500, Sleep 500, Sleep 500, Sleep 1000]"
proof -
  have "poll_effects 10 = [Sleep 500, Sleep 500, Sleep 500, Sleep 500, Sleep 500,
                        Sleep 500, Sleep 500, Sleep 500, Sleep 500, Sleep 500, Sleep 1000]"
    by (simp add: poll_effects_def numeral_eq_Suc)
  with never_located_run [OF section_empty, of "[]"] all_boxes_empty show ?thesis
    by simp
qed

text \<open>
  C8 (amended). When no page the host ever shows yields a handle, \<open>ctWaitForCalendarLoad\<close>
  does nothing but sleep, on the one schedule that \<open>polled\<close> describes: each poll is the
  retries of the locator (500 ms each, until a round finds a section, ten at most)
  followed by the interval of 1000 ms, and a new poll starts while less than 30000 ms have
  passed. It then throws the timeout, at least 30000 ms and less than 36000 ms after the
  call, with the number of checkboxes of the document at that moment.
\<close>

theorem load_gate_timeout:
  assumes "\<forall>t q. snapshot (host t q) = []" and "snapshot (pg w) = []"
  shows "\<exists>ks w'. polled host (now w) ks w
     \<and> (\<forall>ks'. polled host (now w) ks' w \<longrightarrow> ks' = ks)
     \<and> w' = sleeps host (concat (map poll_sleeps ks)) w
     \<and> ctWaitForCalendarLoad host w =
         (Inl (Timeout (length (doc_querySelectorAll (tree (pg w')) CT_CHECKBOX_SELECTOR))), w')
     \<and> trace w' = trace w @ concat (map poll_effects ks)
     \<and> ks \<noteq> [] \<and> 30000 \<le> now w' - now w \<and> now w' - now w < 36000"
proof -
  from wait_loop_schedule [OF assms, of "now w"] obtain ks where
    r: "polled host (now w) ks w"
      "wait_loop host (now w) w =
         (Inl (Timeout (length (doc_querySelectorAll
                  (tree (pg (sleeps host (concat (map poll_sleeps ks)) w))) CT_CHECKBOX_SELECTOR))),
          sleeps host (concat (map poll_sleeps ks)) w)"
    by blast
  have u: "\<forall>ks'. polled host (now w) ks' w \<longrightarrow> ks' = ks"
    using polled_unique [OF r(1)] by blast
  have b: "ks \<noteq> [] \<and> 30000 \<le> now (sleeps host (concat (map poll_sleeps ks)) w) - now w
     \<and> now (sleeps host (concat (map poll_sleeps ks)) w) - now w < 36000"
    using polled_bounds [OF r(1)] by simp
  have t: "trace (sleeps host (concat (map poll_sleeps ks)) w) = trace w @ concat (map poll_effects ks)"
    by (simp add: trace_sleeps poll_trace)
  have res: "ctWaitForCalendarLoad host w =
      (Inl (Timeout (length (doc_querySelectorAll
                  (tree (pg (sleeps host (concat (map poll_sleeps ks)) w))) CT_CHECKBOX_SELECTOR))),
       sleeps host (concat (map poll_sleeps ks)) w)"
    using r(2) by (simp add: ctWaitForCalendarLoad_def)
  from r(1) u res t b show ?thesis by blast
qed

text \<open>
  The amended C8 on a page whose only checkbox has no label and no section: five polls of
  6000 ms, and the timeout carries the count 1.
\<close>

theorem load_gate_timeout_witness:
  "snapshot (page_of doc_bare []) = []
   \<and> doc_querySelectorAll doc_bare CT_CHECKBOX_SELECTOR = [[1, 0]]
   \<and> polled (rerender_host doc_bare) 0 [10, 10, 10, 10, 10] (world_of (page_of doc_bare []))
   \<and> ctWaitForCalendarLoad (rerender_host doc_bare) (world_of (page_of doc_bare [])) =
       (Inl (Timeout 1),
        \<lparr>pg = page_of doc_bare [], now = 30000,
         trace = concat (map poll_effects [10, 10, 10, 10, 10])\<rparr>)"
proof -
  let ?W = "world_of (page_of doc_bare [])"
  let ?host = "rerender_host doc_bare"
  have nd: "\<forall>t q. snapshot (?host t q) = []"
    using section_bare by (simp add: snapshot_def rerender_host_def)
  have init: "snapshot (pg ?W) = []"
    using section_bare by (simp add: snapshot_def world_of_def page_of_def)
  have ns: "\<forall>t q. find_section_round (tree (?host t q)) = Inr None"
    using section_bare by (simp add: rerender_host_def)
  have n0: "no_section ?W" using section_bare by (simp add: no_section_def world_of_def page_of_def)
  have p: "polled ?host (now ?W) [10, 10, 10, 10, 10] ?W"
    using ns n0 by (rule polled_never_located)
  from load_gate_timeout [OF nd init] obtain ks w' where
    r: "\<forall>ks'. polled ?host (now ?W) ks' ?W \<longrightarrow> ks' = ks"
      "w' = sleeps ?host (concat (map poll_sleeps ks)) ?W"
      "ctWaitForCalendarLoad ?host ?W =
         (Inl (Timeout (length (doc_querySelectorAll (tree (pg w')) CT_CHECKBOX_SELECTOR))), w')"
    by blast
  from r(1) p have ks: "ks = [10, 10, 10, 10, 10]" by blast
  have fin: "sleeps ?host (concat (map poll_sleeps [10, 10, 10, 10, 10])) ?W =
      \<lparr>pg = page_of doc_bare [], now = 30000, trace = concat (map poll_effects [10, 10, 10, 10, 10])\<rparr>"
    unfolding sleeps_rerender poll_trace
    by (simp add: poll_sleeps_def sum_list_replicate world_of_def page_of_def)
  have "ctWaitForCalendarLoad ?host ?W =
       (Inl (Timeout 1),
        \<lparr>pg = page_of doc_bare [], now = 30000,
         trace = concat (map poll_effects [10, 10, 10, 10, 10])\<rparr>)"
    using r(3) all_boxes_bare unfolding r(2) ks fin by (simp add: page_of_def)
  moreover have "now ?W = 0" by (simp add: world_of_def)
  ultimately show ?thesis using init p all_boxes_bare by (simp add: world_of_def)
qed


subsection \<open>C9: the discovery layer never throws\<close>





subsection \<open>C10: the resolver never returns the empty string\<close>

text \<open>
  C10. \<open>ctGetCalendarLabel\<close> returns null or a string of positive length.
\<close>

theorem resolve_never_empty:
  "ctGetCalendarLabel doc checkbox = None \<or> (\<exists>l. ctGetCalendarLabel doc checkbox = Some l \<and> 0 < length l)"
  using label_nonempty [of doc checkbox] by (cases "ctGetCalendarLabel doc checkbox") auto

text \<open>
  C10 on a checkbox whose accessible name ends in a space.
\<close>

theorem resolve_never_empty_witness:
  "ctGetCalendarLabel doc_trailing_space [1, 0, 0] = Some (js ''A '') \<and> 0 < length (js ''A '')"
  using resolve_never_empty [of doc_trailing_space "[1, 0, 0]"] label_ts by (simp add: js_def)

end
